theory Spec2Isabelle
  imports Main "HOL-Library.Char_ord" "HOL-Library.List_Lexorder"
begin

section \<open>The ekam driver (src/Driver.cpp) as a shallow embedding\<close>

text \<open>
  The driver is single-threaded: every function of Driver.cpp becomes a function from the
  driver's state to its new state. Objects that the C++ code reaches through pointers
  (\<open>ActionDriver\<close>, \<open>Provision\<close>) live in two heaps, partial maps from addresses to
  records; the tables and queues hold addresses. An exception is a value \<open>Inl e\<close> of
  the result; calling a method on, or reading through, a pointer whose object has been
  deleted is undefined behaviour in C++ and is reported as \<open>UseAfterFree\<close>; reading
  a vector past its end is reported as \<open>OutOfBounds\<close>; a failed \<open>assert\<close> as
  \<open>AssertionFailed\<close>; and where the code would store a null owner in a queue (an action
  that is running but missing from \<open>activeActions\<close>) the model stops with \<open>NullPointer\<close>.
\<close>

subsection \<open>Collaborators that Driver.cpp only uses\<close>

text \<open>
  Modelled from the spec: File (File.h is not part of the sources). A file handle is
  its canonical name, a byte string with \<open>/\<close> as separator; \<open>equals\<close> is equality of the
  handles, \<open>clone\<close> copies the handle.
\<close>

type_synonym File = string

definition canonicalName :: "File \<Rightarrow> string" where
  "canonicalName f = f"

definition equals :: "File \<Rightarrow> File \<Rightarrow> bool" where
  "equals f g = (f = g)"

text \<open>Modelled from the spec: Hash, opaque and comparable; \<open>NullHash\<close> is the default value.\<close>

datatype Hash = NullHash | ContentHash nat

text \<open>
  Modelled from the spec: Tag (Tag.h is not part of the sources), a value type with the
  distinguished default tag and the file-path constructor.
\<close>

datatype Tag = DEFAULT_TAG | fromFile string | fromName string

text \<open>Modelled from the spec: Action and ActionFactory, opaque but for what the driver calls.\<close>

record Action =
  getVerb :: string
  isSilent :: bool

record ActionFactory =
  enumerateTriggerTags :: "Tag list"
  tryMakeAction :: "Tag \<Rightarrow> File \<Rightarrow> Action option"

text \<open>Modelled from the spec: the dashboard task, its state and the text logged to it.\<close>

datatype TaskState =
  Dashboard_PENDING | Dashboard_RUNNING | Dashboard_DONE | Dashboard_PASSED
  | Dashboard_FAILED | Dashboard_BLOCKED

datatype Silence = SILENT | NORMAL

record Task =
  taskVerb :: string
  taskNoun :: string
  taskSilence :: Silence
  taskState :: TaskState
  taskOutput :: "string list"

definition beginTask :: "string \<Rightarrow> string \<Rightarrow> Silence \<Rightarrow> Task" where
  "beginTask v n s =
     \<lparr>taskVerb = v, taskNoun = n, taskSilence = s, taskState = Dashboard_PENDING,
      taskOutput = []\<rparr>"

definition setState :: "TaskState \<Rightarrow> Task \<Rightarrow> Task" where
  "setState s t = t\<lparr>taskState := s\<rparr>"

definition addOutput :: "string \<Rightarrow> Task \<Rightarrow> Task" where
  "addOutput text t = t\<lparr>taskOutput := taskOutput t @ [text]\<rparr>"

subsection \<open>The data of Driver.cpp\<close>

type_synonym ActionPtr = nat
type_synonym ProvisionPtr = nat

datatype State = PENDING | RUNNING | DONE | PASSED | FAILED

text \<open>
  \<open>asyncCallbackOp\<close> holds the handle of the callback this action has queued with the event
  manager; replacing or clearing the handle cancels the callback (spec, section 6).
\<close>

datatype Callback = StartCallback | DoneCallback

record Provision =
  file' :: File
  contentHash :: Hash

record ActionDriver =
  action :: Action
  srcfile :: File
  srcHash :: Hash
  dashboardTask :: Task
  state :: State
  asyncCallbackOp :: "Callback option"
  isRunning :: bool
  runningAction :: bool
  outputs :: "File list"
  provisions :: "ProvisionPtr list"
  providedTags :: "Tag list list"

datatype Error =
  NotRunning
  | FailedAfterSuccess
  | FailedAfterPassed
  | NotInCompletedActionPtrs
  | AssertionFailed
  | UseAfterFree
  | NullPointer
  | OutOfBounds

text \<open>What an external collaborator or an action threw (\<open>catch (const std::exception&)\<close>
  or \<open>catch (...)\<close>).\<close>

datatype Thrown = StdException string | UnknownException

text \<open>
  Modelled from the spec: the multi-index tables (Table.h is not part of the sources) are
  lists of rows in insertion order; a search by one column yields the matching rows in
  that order and an erase by one column removes every matching row. The two multimaps
  are lists of pairs as well. \<open>disk\<close> is the file system as the driver reads it: the
  content hash of each existing file. \<open>allocated\<close> counts the objects created so far
  and gives each new object an address never used before.
\<close>

record Driver =
  maxConcurrentActions :: int
  src :: File
  tmp :: File
  disk :: "File \<Rightarrow> Hash option"
  triggers :: "(Tag \<times> ActionFactory) list"
  ownedFactories :: "ActionFactory list"
  tagTable :: "(Tag \<times> ProvisionPtr) list"
  dependencyTable :: "(Tag \<times> ActionPtr \<times> ProvisionPtr option) list"
  actionsByTrigger :: "(ProvisionPtr \<times> ActionPtr) list"
  pendingActions :: "ActionPtr list"
  activeActions :: "ActionPtr list"
  completedActionPtrs :: "ActionPtr list"
  rootProvisions :: "ProvisionPtr list"
  actionHeap :: "ActionPtr \<rightharpoonup> ActionDriver"
  provisionHeap :: "ProvisionPtr \<rightharpoonup> Provision"
  allocated :: nat

subsection \<open>fileDepth and commonPrefixLength\<close>

text \<open>
  Both return a C++ \<open>int\<close>; the model counts in \<open>nat\<close>, which agrees with the code for
  every name shorter than \<open>2^31\<close> bytes.
\<close>

fun fileDepth :: "string \<Rightarrow> nat" where
  "fileDepth [] = 0"
| "fileDepth (c # cs) = (if c = CHR ''/'' then Suc (fileDepth cs) else fileDepth cs)"

fun commonPrefixLength :: "string \<Rightarrow> string \<Rightarrow> nat" where
  "commonPrefixLength (x # xs) (y # ys) =
     (if x \<noteq> y then 0 else Suc (commonPrefixLength xs ys))"
| "commonPrefixLength _ _ = 0"

subsection \<open>ActionDriver::choosePreferredProvider\<close>

definition searchTag :: "(Tag \<times> ProvisionPtr) list \<Rightarrow> Tag \<Rightarrow> ProvisionPtr list" where
  "searchTag tt tag = map snd (filter (\<lambda>row. fst row = tag) tt)"

record BestMatch =
  bestMatch :: ProvisionPtr
  bestMatchName :: string
  bestMatchDepth :: nat
  bestMatchCommonPrefix :: nat

text \<open>
  The body of the \<open>do ... while (iter.next())\<close> loop: \<open>continues\<close> is true on
  exactly the paths that reach a \<open>continue\<close>, which keep the best match so far; every
  other path falls through to the assignments that make the candidate the best match.
\<close>

definition continues :: "BestMatch \<Rightarrow> string \<Rightarrow> nat \<Rightarrow> nat \<Rightarrow> bool" where
  "continues best candidateName candidateDepth candidateCommonPrefix =
     (if candidateCommonPrefix < bestMatchCommonPrefix best then True
      else if candidateCommonPrefix = bestMatchCommonPrefix best
      then (if candidateDepth > bestMatchDepth best then True
            else if candidateDepth = bestMatchDepth best
            then (if bestMatchName best < candidateName then True
                  else if bestMatchName best = candidateName then True
                  else False)
            else False)
      else False)"

fun chooseLoop ::
  "(ProvisionPtr \<rightharpoonup> Provision) \<Rightarrow> string \<Rightarrow> ProvisionPtr list \<Rightarrow> BestMatch
   \<Rightarrow> Error + BestMatch" where
  "chooseLoop heap srcName [] best = Inr best"
| "chooseLoop heap srcName (candidate # rest) best =
     (case heap candidate of
        None \<Rightarrow> Inl UseAfterFree
      | Some c \<Rightarrow>
          chooseLoop heap srcName rest
            (if continues best (canonicalName (file' c))
                  (fileDepth (canonicalName (file' c)))
                  (commonPrefixLength srcName (canonicalName (file' c)))
             then best
             else \<lparr>bestMatch = candidate,
                   bestMatchName = canonicalName (file' c),
                   bestMatchDepth = fileDepth (canonicalName (file' c)),
                   bestMatchCommonPrefix =
                     commonPrefixLength srcName (canonicalName (file' c))\<rparr>))"

definition choosePreferredProvider ::
  "ActionPtr \<Rightarrow> Tag \<Rightarrow> Driver \<Rightarrow> Error + ProvisionPtr option" where
  "choosePreferredProvider this tag d =
     (case searchTag (tagTable d) tag of
        [] \<Rightarrow> Inr None
      | first # rest \<Rightarrow>
          (case actionHeap d this of
             None \<Rightarrow> Inl UseAfterFree
           | Some self \<Rightarrow>
               (if rest = [] then Inr (Some first)
                else (case provisionHeap d first of
                        None \<Rightarrow> Inl UseAfterFree
                      | Some b \<Rightarrow>
                          (let srcName = canonicalName (srcfile self);
                               bestMatchName = canonicalName (file' b)
                           in case chooseLoop (provisionHeap d) srcName rest
                                     \<lparr>bestMatch = first, bestMatchName = bestMatchName,
                                      bestMatchDepth = fileDepth bestMatchName,
                                      bestMatchCommonPrefix =
                                        commonPrefixLength srcName bestMatchName\<rparr> of
                                Inl e \<Rightarrow> Inl e
                              | Inr best \<Rightarrow> Inr (Some (bestMatch best)))))))"

subsection \<open>The BuildContext methods of ActionDriver\<close>

definition ensureRunning :: "ActionDriver \<Rightarrow> Error + unit" where
  "ensureRunning self = (if \<not> isRunning self then Inl NotRunning else Inr ())"

text \<open>
  \<open>runAsynchronously(&doneCallback, &asyncCallbackOp)\<close>: the new handle replaces the old
  one, so a callback queued before is cancelled.
\<close>

definition queueDoneCallback :: "ActionDriver \<Rightarrow> ActionDriver" where
  "queueDoneCallback self = self\<lparr>asyncCallbackOp := Some DoneCallback\<rparr>"

definition setAction :: "ActionPtr \<Rightarrow> ActionDriver \<Rightarrow> Driver \<Rightarrow> Driver" where
  "setAction this self d = d\<lparr>actionHeap := (actionHeap d)(this \<mapsto> self)\<rparr>"

definition findProvider :: "ActionPtr \<Rightarrow> Tag \<Rightarrow> Driver \<Rightarrow> Error + (File option \<times> Driver)" where
  "findProvider this tag d =
     (case actionHeap d this of
        None \<Rightarrow> Inl UseAfterFree
      | Some self \<Rightarrow>
          (case ensureRunning self of
             Inl e \<Rightarrow> Inl e
           | Inr _ \<Rightarrow>
               (case choosePreferredProvider this tag d of
                  Inl e \<Rightarrow> Inl e
                | Inr None \<Rightarrow>
                    Inr (None, d\<lparr>dependencyTable := dependencyTable d @ [(tag, this, None)]\<rparr>)
                | Inr (Some provision) \<Rightarrow>
                    (case provisionHeap d provision of
                       None \<Rightarrow> Inl UseAfterFree
                     | Some p \<Rightarrow>
                         Inr (Some (file' p),
                              d\<lparr>dependencyTable :=
                                   dependencyTable d @ [(tag, this, Some provision)]\<rparr>)))))"

definition findInput :: "ActionPtr \<Rightarrow> string \<Rightarrow> Driver \<Rightarrow> Error + (File option \<times> Driver)" where
  "findInput this path d =
     (case actionHeap d this of
        None \<Rightarrow> Inl UseAfterFree
      | Some self \<Rightarrow>
          (case ensureRunning self of
             Inl e \<Rightarrow> Inl e
           | Inr _ \<Rightarrow> findProvider this (fromFile path) d))"

text \<open>
  The search loop of \<open>provide\<close>: the index of the first provision of this action whose
  file equals the given one.
\<close>

fun findProvision ::
  "(ProvisionPtr \<rightharpoonup> Provision) \<Rightarrow> ProvisionPtr list \<Rightarrow> File \<Rightarrow> nat \<Rightarrow> Error + nat option" where
  "findProvision heap [] f i = Inr None"
| "findProvision heap (p # ps) f i =
     (case heap p of
        None \<Rightarrow> Inl UseAfterFree
      | Some pr \<Rightarrow>
          (if equals (file' pr) f then Inr (Some i) else findProvision heap ps f (Suc i)))"

definition provide :: "ActionPtr \<Rightarrow> File \<Rightarrow> Tag list \<Rightarrow> Driver \<Rightarrow> Error + Driver" where
  "provide this f tags d =
     (case actionHeap d this of
        None \<Rightarrow> Inl UseAfterFree
      | Some self \<Rightarrow>
          (case ensureRunning self of
             Inl e \<Rightarrow> Inl e
           | Inr _ \<Rightarrow>
               (case findProvision (provisionHeap d) (provisions self) f 0 of
                  Inl e \<Rightarrow> Inl e
                | Inr (Some i) \<Rightarrow>
                    (if i < length (providedTags self)
                     then Inr (setAction this
                                 (self\<lparr>providedTags :=
                                         (providedTags self)[i := providedTags self ! i @ tags]\<rparr>)
                                 (d\<lparr>provisionHeap :=
                                      (provisionHeap d)(provisions self ! i \<mapsto>
                                         \<lparr>file' = f,
                                          contentHash =
                                            (case provisionHeap d (provisions self ! i) of
                                               None \<Rightarrow> NullHash
                                             | Some pr \<Rightarrow> contentHash pr)\<rparr>)\<rparr>))
                     else Inl OutOfBounds)
                | Inr None \<Rightarrow>
                    Inr (setAction this
                           (self\<lparr>provisions := provisions self @ [allocated d],
                                 providedTags := providedTags self @ [tags]\<rparr>)
                           (d\<lparr>provisionHeap :=
                                (provisionHeap d)(allocated d \<mapsto>
                                   \<lparr>file' = f, contentHash = NullHash\<rparr>),
                              allocated := Suc (allocated d)\<rparr>)))))"

definition log :: "ActionPtr \<Rightarrow> string \<Rightarrow> Driver \<Rightarrow> Error + Driver" where
  "log this text d =
     (case actionHeap d this of
        None \<Rightarrow> Inl UseAfterFree
      | Some self \<Rightarrow>
          (case ensureRunning self of
             Inl e \<Rightarrow> Inl e
           | Inr _ \<Rightarrow>
               Inr (setAction this
                      (self\<lparr>dashboardTask := addOutput text (dashboardTask self)\<rparr>) d)))"

text \<open>
  Modelled from the spec: \<open>File::relative\<close>. The directories that
  \<open>recursivelyCreateDirectory\<close> makes are not part of \<open>disk\<close>, which holds files only.
\<close>

definition relative :: "File \<Rightarrow> string \<Rightarrow> File" where
  "relative base path = base @ ''/'' @ path"

definition newOutput :: "ActionPtr \<Rightarrow> string \<Rightarrow> Driver \<Rightarrow> Error + (File \<times> Driver)" where
  "newOutput this path d =
     (case actionHeap d this of
        None \<Rightarrow> Inl UseAfterFree
      | Some self \<Rightarrow>
          (case ensureRunning self of
             Inl e \<Rightarrow> Inl e
           | Inr _ \<Rightarrow>
               (case provide this (relative (tmp d) path) [DEFAULT_TAG] d of
                  Inl e \<Rightarrow> Inl e
                | Inr d1 \<Rightarrow>
                    (case actionHeap d1 this of
                       None \<Rightarrow> Inl UseAfterFree
                     | Some self1 \<Rightarrow>
                         Inr (relative (tmp d) path,
                              setAction this
                                (self1\<lparr>outputs := outputs self1 @ [relative (tmp d) path]\<rparr>)
                                d1)))))"

subsection \<open>Driver: factories and new actions\<close>

definition addActionFactory :: "ActionFactory \<Rightarrow> Driver \<Rightarrow> Driver" where
  "addActionFactory factory d =
     d\<lparr>triggers := triggers d @ map (\<lambda>tag. (tag, factory)) (enumerateTriggerTags factory)\<rparr>"

definition queueNewAction :: "Action \<Rightarrow> ProvisionPtr \<Rightarrow> Driver \<Rightarrow> Error + Driver" where
  "queueNewAction actionToAdopt provision d =
     (case provisionHeap d provision of
        None \<Rightarrow> Inl UseAfterFree
      | Some p \<Rightarrow>
          Inr (d\<lparr>actionHeap :=
                   (actionHeap d)(allocated d \<mapsto>
                      \<lparr>action = actionToAdopt, srcfile = file' p, srcHash = contentHash p,
                       dashboardTask =
                         beginTask (getVerb actionToAdopt) (canonicalName (file' p))
                           (if isSilent actionToAdopt then SILENT else NORMAL),
                       state = PENDING, asyncCallbackOp = None, isRunning = False,
                       runningAction = False, outputs = [], provisions = [],
                       providedTags = []\<rparr>),
                 allocated := Suc (allocated d),
                 actionsByTrigger := actionsByTrigger d @ [(provision, allocated d)],
                 pendingActions := allocated d # pendingActions d\<rparr>))"

text \<open>The inner loop of \<open>rescanForNewFactory\<close>, over the provisions that carry one tag.\<close>

fun rescanTag :: "ActionFactory \<Rightarrow> Tag \<Rightarrow> ProvisionPtr list \<Rightarrow> Driver \<Rightarrow> Error + Driver" where
  "rescanTag factory tag [] d = Inr d"
| "rescanTag factory tag (provision # rest) d =
     (case provisionHeap d provision of
        None \<Rightarrow> Inl UseAfterFree
      | Some p \<Rightarrow>
          (case tryMakeAction factory tag (file' p) of
             None \<Rightarrow> rescanTag factory tag rest d
           | Some a \<Rightarrow>
               (case queueNewAction a provision d of
                  Inl e \<Rightarrow> Inl e
                | Inr d1 \<Rightarrow> rescanTag factory tag rest d1)))"

fun rescanTags :: "ActionFactory \<Rightarrow> Tag list \<Rightarrow> Driver \<Rightarrow> Error + Driver" where
  "rescanTags factory [] d = Inr d"
| "rescanTags factory (tag # tags) d =
     (case rescanTag factory tag (searchTag (tagTable d) tag) d of
        Inl e \<Rightarrow> Inl e
      | Inr d1 \<Rightarrow> rescanTags factory tags d1)"

definition rescanForNewFactory :: "ActionFactory \<Rightarrow> Driver \<Rightarrow> Error + Driver" where
  "rescanForNewFactory factory d = rescanTags factory (enumerateTriggerTags factory) d"

definition addActionType :: "ActionPtr \<Rightarrow> ActionFactory \<Rightarrow> Driver \<Rightarrow> Error + Driver" where
  "addActionType this factoryToAdopt d =
     (case actionHeap d this of
        None \<Rightarrow> Inl UseAfterFree
      | Some self \<Rightarrow>
          (case ensureRunning self of
             Inl e \<Rightarrow> Inl e
           | Inr _ \<Rightarrow>
               (case rescanForNewFactory factoryToAdopt (addActionFactory factoryToAdopt d) of
                  Inl e \<Rightarrow> Inl e
                | Inr d1 \<Rightarrow> Inr (d1\<lparr>ownedFactories := ownedFactories d1 @ [factoryToAdopt]\<rparr>))))"

subsection \<open>Terminal transitions of ActionDriver\<close>

definition noMoreEvents :: "ActionPtr \<Rightarrow> Driver \<Rightarrow> Error + Driver" where
  "noMoreEvents this d =
     (case actionHeap d this of
        None \<Rightarrow> Inl UseAfterFree
      | Some self \<Rightarrow>
          (case ensureRunning self of
             Inl e \<Rightarrow> Inl e
           | Inr _ \<Rightarrow>
               (if state self = RUNNING
                then Inr (setAction this (queueDoneCallback (self\<lparr>state := DONE\<rparr>)) d)
                else Inr d)))"

definition passed :: "ActionPtr \<Rightarrow> Driver \<Rightarrow> Error + Driver" where
  "passed this d =
     (case actionHeap d this of
        None \<Rightarrow> Inl UseAfterFree
      | Some self \<Rightarrow>
          (case ensureRunning self of
             Inl e \<Rightarrow> Inl e
           | Inr _ \<Rightarrow>
               (if state self = FAILED then Inr d
                else Inr (setAction this (queueDoneCallback (self\<lparr>state := PASSED\<rparr>)) d))))"

definition failed :: "ActionPtr \<Rightarrow> Driver \<Rightarrow> Error + Driver" where
  "failed this d =
     (case actionHeap d this of
        None \<Rightarrow> Inl UseAfterFree
      | Some self \<Rightarrow>
          (case ensureRunning self of
             Inl e \<Rightarrow> Inl e
           | Inr _ \<Rightarrow>
               (if state self = FAILED then Inr d
                else if state self = DONE then Inl FailedAfterSuccess
                else if state self = PASSED then Inl FailedAfterPassed
                else Inr (setAction this (queueDoneCallback (self\<lparr>state := FAILED\<rparr>)) d))))"

subsection \<open>ActionDriver::reset\<close>

text \<open>
  \<open>reset\<close> calls itself on other actions while it runs. Its result is
  \<open>None\<close> when the recursion is deeper than the fuel given, \<open>Some (Inl e)\<close> when
  an exception leaves it and \<open>Some (Inr d)\<close> when it returns with the driver in state \<open>d\<close>.
\<close>

definition andThen ::
  "(Error + 'a) option \<Rightarrow> ('a \<Rightarrow> (Error + 'b) option) \<Rightarrow> (Error + 'b) option" where
  "andThen m f = (case m of None \<Rightarrow> None | Some (Inl e) \<Rightarrow> Some (Inl e) | Some (Inr x) \<Rightarrow> f x)"

text \<open>A \<open>for\<close> loop over a vector collected beforehand; an exception ends it.\<close>

fun forEach ::
  "('x \<Rightarrow> Driver \<Rightarrow> (Error + Driver) option) \<Rightarrow> 'x list \<Rightarrow> Driver \<Rightarrow> (Error + Driver) option" where
  "forEach f [] d = Some (Inr d)"
| "forEach f (x # xs) d = andThen (f x d) (forEach f xs)"

text \<open>\<open>SearchIterator<DependencyTable::PROVISION>\<close>: the actions of the rows of a provision.\<close>

definition searchProvision ::
  "(Tag \<times> ActionPtr \<times> ProvisionPtr option) list \<Rightarrow> ProvisionPtr \<Rightarrow> ActionPtr list" where
  "searchProvision dt provision =
     map (\<lambda>row. fst (snd row)) (filter (\<lambda>row. snd (snd row) = Some provision) dt)"

text \<open>\<open>actionsByTrigger.equal_range(provision)\<close>: the actions triggered by a provision.\<close>

definition equal_range :: "(ProvisionPtr \<times> ActionPtr) list \<Rightarrow> ProvisionPtr \<Rightarrow> ActionPtr list" where
  "equal_range abt provision = map snd (filter (\<lambda>row. fst row = provision) abt)"

text \<open>
  The search of \<open>pendingActions\<close> from the back, and \<open>releaseAndShift\<close> of the entry found.
\<close>

definition releaseLast :: "ActionPtr \<Rightarrow> ActionPtr list \<Rightarrow> ActionPtr list" where
  "releaseLast x xs = rev (remove1 x (rev xs))"

text \<open>Deleting the provisions that an \<open>OwnedPtrVector<Provision>\<close> owns.\<close>

definition freeProvisions ::
  "ProvisionPtr list \<Rightarrow> (ProvisionPtr \<rightharpoonup> Provision) \<Rightarrow> (ProvisionPtr \<rightharpoonup> Provision)" where
  "freeProvisions ps heap = (\<lambda>p. if p \<in> set ps then None else heap p)"

text \<open>
  \<open>~ActionDriver\<close>, run when the \<open>OwnedPtr\<close> that took the action out of
  \<open>pendingActions\<close> goes out of scope: the action and the provisions it owns are deleted.
\<close>

definition deleteActionDriver :: "ActionPtr \<Rightarrow> Driver \<Rightarrow> Driver" where
  "deleteActionDriver x d =
     d\<lparr>actionHeap := (actionHeap d)(x := None),
       provisionHeap :=
         (case actionHeap d x of
            None \<Rightarrow> provisionHeap d
          | Some r \<Rightarrow> freeProvisions (provisions r) (provisionHeap d))\<rparr>"

text \<open>
  One round of the loop over \<open>actionsToDelete\<close>: reset the action, then take it out of
  \<open>pendingActions\<close> and delete it. \<open>resetRec\<close> stands for the recursive call of \<open>reset\<close>.
\<close>

definition deleteTriggered ::
  "(ActionPtr \<Rightarrow> Driver \<Rightarrow> (Error + Driver) option) \<Rightarrow> ActionPtr \<Rightarrow> Driver
   \<Rightarrow> (Error + Driver) option" where
  "deleteTriggered resetRec x d =
     andThen (resetRec x d)
       (\<lambda>d1. Some (Inr (if x \<in> set (pendingActions d1)
                         then deleteActionDriver x
                                (d1\<lparr>pendingActions := releaseLast x (pendingActions d1)\<rparr>)
                         else d1)))"

text \<open>
  One round of the loop over the provisions of the action being reset (\<open>provisions.get(i)\<close>
  reads the action, which must still exist): reset the dependents of the provision,
  delete what it triggered, erase it from both tables.
\<close>

definition resetProvision ::
  "(ActionPtr \<Rightarrow> Driver \<Rightarrow> (Error + Driver) option) \<Rightarrow> ActionPtr \<Rightarrow> ProvisionPtr \<Rightarrow> Driver
   \<Rightarrow> (Error + Driver) option" where
  "resetProvision resetRec this provision d =
     (case actionHeap d this of
        None \<Rightarrow> Some (Inl UseAfterFree)
      | Some _ \<Rightarrow>
          andThen (forEach resetRec (searchProvision (dependencyTable d) provision) d)
            (\<lambda>d1. andThen
               (forEach (deleteTriggered resetRec) (equal_range (actionsByTrigger d1) provision)
                  (d1\<lparr>actionsByTrigger :=
                        filter (\<lambda>row. fst row \<noteq> provision) (actionsByTrigger d1)\<rparr>))
               (\<lambda>d2. Some (Inr (d2\<lparr>tagTable :=
                                       filter (\<lambda>row. snd row \<noteq> provision) (tagTable d2),
                                     dependencyTable :=
                                       filter (\<lambda>row. snd (snd row) \<noteq> Some provision)
                                         (dependencyTable d2)\<rparr>)))))"

text \<open>
  The first part of \<open>reset\<close>, for an action that is not PENDING: take the action out of
  \<open>activeActions\<close> (when it is running) or out of \<open>completedActionPtrs\<close>, make it PENDING
  and put it on the back of \<open>pendingActions\<close>.
\<close>

definition requeue :: "ActionPtr \<Rightarrow> ActionDriver \<Rightarrow> Driver \<Rightarrow> Error + Driver" where
  "requeue this self d =
     (if isRunning self
      then (if this \<in> set (activeActions d)
            then Inr (setAction this
                        (self\<lparr>dashboardTask := setState Dashboard_BLOCKED (dashboardTask self),
                              runningAction := False, asyncCallbackOp := None,
                              isRunning := False, state := PENDING\<rparr>)
                        (d\<lparr>activeActions := remove1 this (activeActions d),
                           pendingActions := pendingActions d @ [this]\<rparr>))
            else Inl NullPointer)
      else (if this \<in> set (completedActionPtrs d)
            then Inr (setAction this (self\<lparr>state := PENDING\<rparr>)
                        (d\<lparr>completedActionPtrs := removeAll this (completedActionPtrs d),
                           pendingActions := pendingActions d @ [this]\<rparr>))
            else Inl NotInCompletedActionPtrs))"

text \<open>
  The last part of \<open>reset\<close>: erase the rows of this action from the dependency table and
  drop its provisions, provided tags and outputs.
\<close>

definition forget :: "ActionPtr \<Rightarrow> Driver \<Rightarrow> (Error + Driver) option" where
  "forget this d =
     (case actionHeap d this of
        None \<Rightarrow> Some (Inl UseAfterFree)
      | Some self \<Rightarrow>
          Some (Inr (setAction this (self\<lparr>provisions := [], providedTags := [], outputs := []\<rparr>)
                       (d\<lparr>dependencyTable :=
                            filter (\<lambda>row. fst (snd row) \<noteq> this) (dependencyTable d),
                          provisionHeap := freeProvisions (provisions self) (provisionHeap d)\<rparr>))))"

primrec reset :: "nat \<Rightarrow> ActionPtr \<Rightarrow> Driver \<Rightarrow> (Error + Driver) option" where
  "reset 0 this d = None"
| "reset (Suc fuel) this d =
     (case actionHeap d this of
        None \<Rightarrow> Some (Inl UseAfterFree)
      | Some self \<Rightarrow>
          (if state self = PENDING then Some (Inr d)
           else (case requeue this self d of
                   Inl e \<Rightarrow> Some (Inl e)
                 | Inr d1 \<Rightarrow>
                     andThen (forEach (resetProvision (reset fuel) this) (provisions self) d1)
                       (forget this))))"

subsection \<open>Driver: registering providers\<close>

text \<open>
  The first loop of \<open>resetDependentActions\<close>, over the rows of the dependency table: the
  actions of the rows with this tag whose preferred provider is no longer the recorded one.
\<close>

fun actionsToReset ::
  "Driver \<Rightarrow> Tag \<Rightarrow> (Tag \<times> ActionPtr \<times> ProvisionPtr option) list \<Rightarrow> Error + ActionPtr list" where
  "actionsToReset d tag [] = Inr []"
| "actionsToReset d tag (row # rows) =
     (if fst row \<noteq> tag then actionsToReset d tag rows
      else (case choosePreferredProvider (fst (snd row)) tag d of
              Inl e \<Rightarrow> Inl e
            | Inr provider \<Rightarrow>
                (case actionsToReset d tag rows of
                   Inl e \<Rightarrow> Inl e
                 | Inr acts \<Rightarrow>
                     Inr (if provider \<noteq> snd (snd row) then fst (snd row) # acts else acts))))"

definition resetDependentActions :: "nat \<Rightarrow> Tag \<Rightarrow> Driver \<Rightarrow> (Error + Driver) option" where
  "resetDependentActions fuel tag d =
     (case actionsToReset d tag (dependencyTable d) of
        Inl e \<Rightarrow> Some (Inl e)
      | Inr acts \<Rightarrow> forEach (reset fuel) acts d)"

fun fireFactories :: "Tag \<Rightarrow> ProvisionPtr \<Rightarrow> ActionFactory list \<Rightarrow> Driver \<Rightarrow> Error + Driver" where
  "fireFactories tag provision [] d = Inr d"
| "fireFactories tag provision (factory # rest) d =
     (case provisionHeap d provision of
        None \<Rightarrow> Inl UseAfterFree
      | Some p \<Rightarrow>
          (case tryMakeAction factory tag (file' p) of
             None \<Rightarrow> fireFactories tag provision rest d
           | Some triggeredAction \<Rightarrow>
               (case queueNewAction triggeredAction provision d of
                  Inl e \<Rightarrow> Inl e
                | Inr d1 \<Rightarrow> fireFactories tag provision rest d1)))"

definition fireTriggers :: "Tag \<Rightarrow> ProvisionPtr \<Rightarrow> Driver \<Rightarrow> Error + Driver" where
  "fireTriggers tag provision d =
     fireFactories tag provision (map snd (filter (\<lambda>row. fst row = tag) (triggers d))) d"

text \<open>
  The body of the loop of \<open>registerProvider\<close> over the tags. \<open>provision\<close> is a pointer and
  \<open>tags\<close> a reference: when \<open>returned\<close> makes the call they point into the \<open>provisions\<close> and
  the \<open>providedTags\<close> of the action that returned, which are cleared by the same statements
  (the end of \<open>reset\<close>, the destructor), so that the tags are alive exactly when the
  provision is; when \<open>scanSourceTree\<close> makes the call both are its locals. After
  \<open>resetDependentActions\<close> the loop reads \<open>tag\<close> and \<open>provision\<close> again for \<open>fireTriggers\<close>
  and the iterator of \<open>tags\<close> for the next round: if the resets freed them, this is a use
  after free.
\<close>

definition registerTag :: "nat \<Rightarrow> ProvisionPtr \<Rightarrow> Tag \<Rightarrow> Driver \<Rightarrow> (Error + Driver) option" where
  "registerTag fuel provision tag d =
     andThen (resetDependentActions fuel tag (d\<lparr>tagTable := tagTable d @ [(tag, provision)]\<rparr>))
       (\<lambda>d1. case provisionHeap d1 provision of
                None \<Rightarrow> Some (Inl UseAfterFree)
              | Some _ \<Rightarrow> Some (fireTriggers tag provision d1))"

text \<open>
  Modelled from the spec: \<open>File::contentHash\<close>, read from \<open>disk\<close>; a file that does not
  exist has the null hash.
\<close>

definition fileContentHash :: "(File \<Rightarrow> Hash option) \<Rightarrow> File \<Rightarrow> Hash" where
  "fileContentHash dsk f = (case dsk f of None \<Rightarrow> NullHash | Some h \<Rightarrow> h)"

text \<open>
  \<open>Driver::registerProvider\<close>: the content hash is stored in the provision, which must
  exist, and every tag is registered in turn; a round in which the provision (and with it
  the tag list) is freed ends the loop with the error of \<open>registerTag\<close>.
\<close>

definition registerProvider ::
  "nat \<Rightarrow> ProvisionPtr \<Rightarrow> Tag list \<Rightarrow> Driver \<Rightarrow> (Error + Driver) option" where
  "registerProvider fuel provision tags d =
     (case provisionHeap d provision of
        None \<Rightarrow> Some (Inl UseAfterFree)
      | Some p \<Rightarrow>
          forEach (registerTag fuel provision) tags
            (d\<lparr>provisionHeap :=
                 (provisionHeap d)(provision \<mapsto>
                    p\<lparr>contentHash := fileContentHash (disk d) (file' p)\<rparr>)\<rparr>))"

subsection \<open>ActionDriver: start and completion\<close>

text \<open>
  \<open>ActionDriver::start\<close>. Its own statements do not throw; \<open>thrown\<close> is what the last call
  it makes, into the event group, throws, if anything. The \<open>assert\<close>s are checked.
\<close>

definition start :: "ActionPtr \<Rightarrow> Thrown option \<Rightarrow> Driver \<Rightarrow> Error + Driver" where
  "start this thrown d =
     (case actionHeap d this of
        None \<Rightarrow> Inl UseAfterFree
      | Some self \<Rightarrow>
          (if this \<in> set (map (\<lambda>row. fst (snd row)) (dependencyTable d))
              \<or> outputs self \<noteq> [] \<or> provisions self \<noteq> [] \<or> isRunning self
           then Inl AssertionFailed
           else Inr (setAction this
                       (self\<lparr>state := RUNNING, isRunning := True,
                             dashboardTask := setState Dashboard_RUNNING (dashboardTask self),
                             asyncCallbackOp :=
                               (if thrown = None then Some StartCallback
                                else asyncCallbackOp self)\<rparr>)
                       d)))"

text \<open>The filter of \<open>returned\<close>: the provisions whose file still exists, in order.\<close>

fun existing ::
  "(File \<Rightarrow> Hash option) \<Rightarrow> (ProvisionPtr \<rightharpoonup> Provision) \<Rightarrow> ProvisionPtr list
   \<Rightarrow> Error + ProvisionPtr list" where
  "existing dsk heap [] = Inr []"
| "existing dsk heap (p # ps) =
     (case heap p of
        None \<Rightarrow> Inl UseAfterFree
      | Some pr \<Rightarrow>
          (case existing dsk heap ps of
             Inl e \<Rightarrow> Inl e
           | Inr kept \<Rightarrow> Inr (if dsk (file' pr) \<noteq> None then p # kept else kept)))"

text \<open>
  The loop \<open>for (i = 0; i < provisions.size(); i++) registerProvider(...)\<close> of \<open>returned\<close>.
  It reads \<open>provisions\<close> and \<open>providedTags\<close> of the action again in every round.
  \<open>rounds\<close> is fuel for the loop: the result is \<open>None\<close> when it is used up and the loop
  would go on. The provisions do not grow while the loop runs, so the number of
  provisions at its start is enough.
\<close>

fun registerProvisions ::
  "nat \<Rightarrow> ActionPtr \<Rightarrow> nat \<Rightarrow> nat \<Rightarrow> Driver \<Rightarrow> (Error + Driver) option" where
  "registerProvisions fuel this i 0 d =
     (case actionHeap d this of
        None \<Rightarrow> Some (Inl UseAfterFree)
      | Some self \<Rightarrow>
          (if i < length (provisions self)
           then (if i < length (providedTags self) then None else Some (Inl OutOfBounds))
           else Some (Inr d)))"
| "registerProvisions fuel this i (Suc rounds) d =
     (case actionHeap d this of
        None \<Rightarrow> Some (Inl UseAfterFree)
      | Some self \<Rightarrow>
          (if i < length (provisions self)
           then (if i < length (providedTags self)
                 then andThen (registerProvider fuel (provisions self ! i) (providedTags self ! i) d)
                        (registerProvisions fuel this (Suc i) rounds)
                 else Some (Inl OutOfBounds))
           else Some (Inr d)))"

definition returned :: "nat \<Rightarrow> ActionPtr \<Rightarrow> Driver \<Rightarrow> (Error + Driver) option" where
  "returned fuel this d =
     (case actionHeap d this of
        None \<Rightarrow> Some (Inl UseAfterFree)
      | Some self \<Rightarrow>
          (case ensureRunning self of
             Inl e \<Rightarrow> Some (Inl e)
           | Inr _ \<Rightarrow>
               (if this \<notin> set (activeActions d) then Some (Inl NullPointer)
                else if state self = FAILED
                then Some (Inr (setAction this
                                  (self\<lparr>runningAction := False, isRunning := False,
                                        provisions := [], providedTags := [], outputs := [],
                                        dashboardTask :=
                                          setState Dashboard_BLOCKED (dashboardTask self)\<rparr>)
                                  (d\<lparr>activeActions := remove1 this (activeActions d),
                                     completedActionPtrs :=
                                       (if this \<in> set (completedActionPtrs d)
                                        then completedActionPtrs d
                                        else completedActionPtrs d @ [this]),
                                     provisionHeap :=
                                       freeProvisions (provisions self) (provisionHeap d)\<rparr>)))
                else (case existing (disk d) (provisionHeap d) (provisions self) of
                        Inl e \<Rightarrow> Some (Inl e)
                      | Inr kept \<Rightarrow>
                          andThen
                            (registerProvisions fuel this 0 (length kept)
                               (setAction this
                                  (self\<lparr>runningAction := False, isRunning := False,
                                        provisions := kept,
                                        dashboardTask :=
                                          setState
                                            (if state self = PASSED then Dashboard_PASSED
                                             else Dashboard_DONE)
                                            (dashboardTask self)\<rparr>)
                                  (d\<lparr>activeActions := remove1 this (activeActions d),
                                     completedActionPtrs :=
                                       (if this \<in> set (completedActionPtrs d)
                                        then completedActionPtrs d
                                        else completedActionPtrs d @ [this])\<rparr>)))
                            (\<lambda>d1. case actionHeap d1 this of
                                     None \<Rightarrow> Some (Inl UseAfterFree)
                                   | Some self1 \<Rightarrow>
                                       Some (Inr (setAction this
                                                    (self1\<lparr>providedTags := []\<rparr>)
                                                    (d1\<lparr>provisionHeap :=
                                                          freeProvisions
                                                            (filter (\<lambda>p. p \<notin> set kept)
                                                               (provisions self))
                                                            (provisionHeap d1)\<rparr>))))))))"

definition what :: "Thrown \<Rightarrow> string" where
  "what t =
     (case t of
        StdException msg \<Rightarrow> ''uncaught exception: '' @ msg @ [CHR 0x0A]
      | UnknownException \<Rightarrow> ''uncaught exception of unknown type'' @ [CHR 0x0A])"

text \<open>\<open>threwException\<close> and \<open>threwUnknownException\<close>, which differ in the text logged.\<close>

definition threwException :: "nat \<Rightarrow> ActionPtr \<Rightarrow> Thrown \<Rightarrow> Driver \<Rightarrow> (Error + Driver) option" where
  "threwException fuel this t d =
     (case actionHeap d this of
        None \<Rightarrow> Some (Inl UseAfterFree)
      | Some self \<Rightarrow>
          (case ensureRunning self of
             Inl e \<Rightarrow> Some (Inl e)
           | Inr _ \<Rightarrow>
               returned fuel this
                 (setAction this
                    (self\<lparr>dashboardTask := addOutput (what t) (dashboardTask self),
                          asyncCallbackOp := None, state := FAILED\<rparr>)
                    d)))"

subsection \<open>Driver: starting actions\<close>

text \<open>
  One round of the loop of \<open>startSomeActions\<close>: move the front of \<open>pendingActions\<close> to the
  back of \<open>activeActions\<close> and start it; \<open>throws\<close> tells what starting an action throws,
  if anything, which the \<open>catch\<close> hands to \<open>threwException\<close>.
\<close>

definition startFront ::
  "nat \<Rightarrow> (ActionPtr \<Rightarrow> Thrown option) \<Rightarrow> Driver \<Rightarrow> (Error + Driver) option" where
  "startFront fuel throws d =
     (case pendingActions d of
        [] \<Rightarrow> Some (Inl OutOfBounds)
      | ptr # rest \<Rightarrow>
          (case start ptr (throws ptr)
                  (d\<lparr>pendingActions := rest, activeActions := activeActions d @ [ptr]\<rparr>) of
             Inl e \<Rightarrow> Some (Inl e)
           | Inr d1 \<Rightarrow>
               (case throws ptr of
                  None \<Rightarrow> Some (Inr d1)
                | Some t \<Rightarrow> threwException fuel ptr t d1)))"

text \<open>
  The \<open>while\<close> loop of \<open>startSomeActions\<close>. \<open>rounds\<close> is fuel for the loop: the result is
  \<open>None\<close> when it is used up and the loop would go on. Every round takes one action off
  \<open>pendingActions\<close> and nothing in a round adds one, so the length of the queue at the start
  is enough.
\<close>

fun startLoop ::
  "nat \<Rightarrow> (ActionPtr \<Rightarrow> Thrown option) \<Rightarrow> nat \<Rightarrow> Driver \<Rightarrow> (Error + Driver) option" where
  "startLoop fuel throws 0 d =
     (if int (length (activeActions d)) < maxConcurrentActions d \<and> pendingActions d \<noteq> []
      then None
      else Some (Inr d))"
| "startLoop fuel throws (Suc rounds) d =
     (if int (length (activeActions d)) < maxConcurrentActions d \<and> pendingActions d \<noteq> []
      then andThen (startFront fuel throws d) (startLoop fuel throws rounds)
      else Some (Inr d))"

definition startSomeActions ::
  "nat \<Rightarrow> (ActionPtr \<Rightarrow> Thrown option) \<Rightarrow> Driver \<Rightarrow> (Error + Driver) option" where
  "startSomeActions fuel throws d = startLoop fuel throws (length (pendingActions d)) d"

subsection \<open>The callbacks and the constructor\<close>

text \<open>
  \<open>StartCallback::run\<close> hands control to the action, which is outside the driver: what the
  action then does reaches the driver as calls of the BuildContext methods. \<open>handle\<close> tells
  whether the action left an operation in \<open>runningAction\<close>.
\<close>

definition StartCallback_run :: "ActionPtr \<Rightarrow> bool \<Rightarrow> Driver \<Rightarrow> Error + Driver" where
  "StartCallback_run actionDriver handle d =
     (case actionHeap d actionDriver of
        None \<Rightarrow> Inl UseAfterFree
      | Some self \<Rightarrow>
          Inr (setAction actionDriver
                 (self\<lparr>asyncCallbackOp := None, runningAction := handle\<rparr>) d))"

definition DoneCallback_run ::
  "nat \<Rightarrow> (ActionPtr \<Rightarrow> Thrown option) \<Rightarrow> ActionPtr \<Rightarrow> Driver \<Rightarrow> (Error + Driver) option" where
  "DoneCallback_run fuel throws actionDriver d =
     (case actionHeap d actionDriver of
        None \<Rightarrow> Some (Inl UseAfterFree)
      | Some self \<Rightarrow>
          andThen (returned fuel actionDriver
                     (setAction actionDriver (self\<lparr>asyncCallbackOp := None\<rparr>) d))
            (startSomeActions fuel throws))"

text \<open>\<open>Driver::Driver\<close>: empty tables and queues.\<close>

definition newDriver :: "File \<Rightarrow> File \<Rightarrow> (File \<Rightarrow> Hash option) \<Rightarrow> int \<Rightarrow> Driver" where
  "newDriver srcRoot tmpRoot dsk maxConcurrent =
     \<lparr>maxConcurrentActions = maxConcurrent, src = srcRoot, tmp = tmpRoot, disk = dsk,
      triggers = [], ownedFactories = [], tagTable = [], dependencyTable = [],
      actionsByTrigger = [], pendingActions = [], activeActions = [],
      completedActionPtrs = [], rootProvisions = [], actionHeap = Map.empty,
      provisionHeap = Map.empty, allocated = 0\<rparr>"

subsection \<open>Driver: the source scan, and the states a driver reaches\<close>

text \<open>
  Modelled from the spec: what \<open>isDirectory\<close> and \<open>list\<close> tell about the source tree, a
  file or a directory with its entries in listing order.
\<close>

datatype FileTree = RegularFile File | Directory File "FileTree list"

text \<open>
  The body of the \<open>else\<close> branch of \<open>scanSourceTree\<close>: a new provision for the file, registered
  under the default tag and kept in \<open>rootProvisions\<close>.
\<close>

definition registerRoot :: "nat \<Rightarrow> File \<Rightarrow> Driver \<Rightarrow> (Error + Driver) option" where
  "registerRoot fuel current d =
     andThen (registerProvider fuel (allocated d) [DEFAULT_TAG]
                (d\<lparr>provisionHeap :=
                     (provisionHeap d)(allocated d \<mapsto> \<lparr>file' = current, contentHash = NullHash\<rparr>),
                   allocated := Suc (allocated d)\<rparr>))
       (\<lambda>d1. Some (Inr (d1\<lparr>rootProvisions := rootProvisions d1 @ [allocated d]\<rparr>)))"

text \<open>
  The loop of \<open>scanSourceTree\<close> over \<open>fileQueue\<close>, a stack whose top (the back of the vector)
  is the head of the list: a directory is replaced by its entries, the last one on top.
\<close>

function scanLoop :: "nat \<Rightarrow> FileTree list \<Rightarrow> Driver \<Rightarrow> (Error + Driver) option" where
  "scanLoop fuel [] d = Some (Inr d)"
| "scanLoop fuel (Directory name entries # fileQueue) d =
     scanLoop fuel (rev entries @ fileQueue) d"
| "scanLoop fuel (RegularFile current # fileQueue) d =
     (case registerRoot fuel current d of
        None \<Rightarrow> None
      | Some (Inl e) \<Rightarrow> Some (Inl e)
      | Some (Inr d1) \<Rightarrow> scanLoop fuel fileQueue d1)"
  by pat_completeness auto
termination
  by (relation "measure (\<lambda>(fuel, fileQueue, d). size_list size fileQueue)")
     (auto simp: size_list_conv_sum_list rev_map[symmetric] sum_list_rev)

definition scanSourceTree :: "nat \<Rightarrow> FileTree \<Rightarrow> Driver \<Rightarrow> (Error + Driver) option" where
  "scanSourceTree fuel root d = scanLoop fuel [root] d"

text \<open>\<open>Driver::start\<close>; \<open>root\<close> is the tree that \<open>src\<close> names.\<close>

definition Driver_start ::
  "nat \<Rightarrow> (ActionPtr \<Rightarrow> Thrown option) \<Rightarrow> FileTree \<Rightarrow> Driver \<Rightarrow> (Error + Driver) option" where
  "Driver_start fuel throws root d =
     andThen (scanSourceTree fuel root d) (startSomeActions fuel throws)"

text \<open>
  The states of a driver: it is constructed, given factories and started; then the event
  manager runs the callbacks that are queued, the actions call the BuildContext methods,
  the event groups report exceptions and the end of events, and the files on disk change.
  A call that raises leaves the driver as it was.
\<close>

inductive reachable :: "Driver \<Rightarrow> bool" where
  constructed: "reachable (newDriver srcRoot tmpRoot dsk maxConcurrent)"
| factory: "reachable d \<Longrightarrow> reachable (addActionFactory factory d)"
| started: "reachable d \<Longrightarrow> Driver_start fuel throws root d = Some (Inr d') \<Longrightarrow> reachable d'"
| startCallback:
    "reachable d \<Longrightarrow> actionHeap d a = Some self \<Longrightarrow> asyncCallbackOp self = Some StartCallback \<Longrightarrow>
     StartCallback_run a handle d = Inr d' \<Longrightarrow> reachable d'"
| doneCallback:
    "reachable d \<Longrightarrow> actionHeap d a = Some self \<Longrightarrow> asyncCallbackOp self = Some DoneCallback \<Longrightarrow>
     DoneCallback_run fuel throws a d = Some (Inr d') \<Longrightarrow> reachable d'"
| called_findProvider: "reachable d \<Longrightarrow> findProvider a tag d = Inr (found, d') \<Longrightarrow> reachable d'"
| called_findInput: "reachable d \<Longrightarrow> findInput a path d = Inr (found, d') \<Longrightarrow> reachable d'"
| called_provide: "reachable d \<Longrightarrow> provide a f tags d = Inr d' \<Longrightarrow> reachable d'"
| called_newOutput: "reachable d \<Longrightarrow> newOutput a path d = Inr (f, d') \<Longrightarrow> reachable d'"
| called_log: "reachable d \<Longrightarrow> log a text d = Inr d' \<Longrightarrow> reachable d'"
| called_addActionType: "reachable d \<Longrightarrow> addActionType a factory d = Inr d' \<Longrightarrow> reachable d'"
| called_passed: "reachable d \<Longrightarrow> passed a d = Inr d' \<Longrightarrow> reachable d'"
| called_failed: "reachable d \<Longrightarrow> failed a d = Inr d' \<Longrightarrow> reachable d'"
| noMoreEvents: "reachable d \<Longrightarrow> noMoreEvents a d = Inr d' \<Longrightarrow> reachable d'"
| threw: "reachable d \<Longrightarrow> threwException fuel a t d = Some (Inr d') \<Longrightarrow> reachable d'"
| diskChanged: "reachable d \<Longrightarrow> reachable (d\<lparr>disk := dsk\<rparr>)"

section \<open>What the specification says, and example states\<close>



text \<open>
  A driver with one action, at address 2, made for the source \<open>src/foo/x.cpp\<close>, in a given
  state and in the queue where an action in that state lives.
\<close>

definition exampleTask :: Task where
  "exampleTask = beginTask ''compile'' ''src/foo/x.cpp'' NORMAL"

definition exampleAction :: "State \<Rightarrow> bool \<Rightarrow> ActionDriver" where
  "exampleAction st running =
     \<lparr>action = \<lparr>getVerb = ''compile'', isSilent = False\<rparr>, srcfile = ''src/foo/x.cpp'',
      srcHash = NullHash, dashboardTask = exampleTask, state = st, asyncCallbackOp = None,
      isRunning = running, runningAction = running, outputs = [], provisions = [],
      providedTags = []\<rparr>"

definition exampleDriver :: "State \<Rightarrow> bool \<Rightarrow> Driver" where
  "exampleDriver st running =
     (newDriver ''src'' ''tmp'' (\<lambda>f. None) 1)
       \<lparr>activeActions := (if running then [2] else []),
        completedActionPtrs := (if running \<or> st = PENDING then [] else [2]),
        pendingActions := (if st = PENDING then [2] else []),
        actionHeap := [2 \<mapsto> exampleAction st running],
        allocated := 3\<rparr>"


text \<open>
  The files of a list of provisions, and the test of \<open>provide\<close> on one provision: it
  exists and its file equals the given one.
\<close>

definition filesOf :: "(ProvisionPtr \<rightharpoonup> Provision) \<Rightarrow> ProvisionPtr list \<Rightarrow> File option list" where
  "filesOf heap ps = map (\<lambda>p. map_option file' (heap p)) ps"

definition holdsFile :: "(ProvisionPtr \<rightharpoonup> Provision) \<Rightarrow> File \<Rightarrow> ProvisionPtr \<Rightarrow> bool" where
  "holdsFile heap f p = (case heap p of None \<Rightarrow> False | Some pr \<Rightarrow> equals (file' pr) f)"

text \<open>A running action that holds two provisions.\<close>

definition provideDriver :: Driver where
  "provideDriver =
     (exampleDriver RUNNING True)
       \<lparr>actionHeap :=
          [2 \<mapsto> (exampleAction RUNNING True)
                   \<lparr>provisions := [3, 4], providedTags := [[DEFAULT_TAG], [fromName ''obj'']]\<rparr>],
        provisionHeap := [3 \<mapsto> \<lparr>file' = ''tmp/x.o'', contentHash = NullHash\<rparr>,
                          4 \<mapsto> \<lparr>file' = ''tmp/x.d'', contentHash = NullHash\<rparr>],
        allocated := 5\<rparr>"

text \<open>
  An action is gone from the driver when it is in none of the pending queue, the active
  set and the completed set.
\<close>

definition gone :: "ActionPtr \<Rightarrow> Driver \<Rightarrow> bool" where
  "gone x d = (x \<notin> set (pendingActions d) \<and> x \<notin> set (activeActions d)
                \<and> x \<notin> set (completedActionPtrs d))"

text \<open>
  Invariant 1 of the specification with the states that go with each place: the pending
  queue and the active set hold no action twice; a queued action exists and is PENDING,
  an active one is not PENDING and is running, a completed one is not PENDING and not
  running.
\<close>

definition placed :: "Driver \<Rightarrow> bool" where
  "placed d =
     (distinct (pendingActions d) \<and> distinct (activeActions d)
      \<and> (\<forall>x \<in> set (pendingActions d).
            case actionHeap d x of None \<Rightarrow> False | Some r \<Rightarrow> state r = PENDING)
      \<and> (\<forall>x \<in> set (activeActions d).
            case actionHeap d x of None \<Rightarrow> False | Some r \<Rightarrow> state r \<noteq> PENDING \<and> isRunning r)
      \<and> (\<forall>x \<in> set (completedActionPtrs d).
            case actionHeap d x of None \<Rightarrow> False
            | Some r \<Rightarrow> state r \<noteq> PENDING \<and> \<not> isRunning r))"

text \<open>A reset creates no action and leaves PENDING what was PENDING.\<close>

definition settles :: "Driver \<Rightarrow> Driver \<Rightarrow> bool" where
  "settles d d' =
     (dom (actionHeap d') \<subseteq> dom (actionHeap d)
      \<and> (\<forall>y r r'. actionHeap d y = Some r \<longrightarrow> state r = PENDING \<longrightarrow>
            actionHeap d' y = Some r' \<longrightarrow> state r' = PENDING))"

text \<open>Relations between the driver before and after a reset, one for each fact kept.\<close>

definition keepsPlaced :: "Driver \<Rightarrow> Driver \<Rightarrow> bool" where
  "keepsPlaced d d' = (placed d \<longrightarrow> placed d')"

text \<open>
  The active set, the completed set and \<open>actionsByTrigger\<close> only lose entries, and what is
  in no queue stays in none.
\<close>

definition shrinks :: "Driver \<Rightarrow> Driver \<Rightarrow> bool" where
  "shrinks d d' =
     (set (activeActions d') \<subseteq> set (activeActions d)
      \<and> length (activeActions d') \<le> length (activeActions d)
      \<and> set (completedActionPtrs d') \<subseteq> set (completedActionPtrs d)
      \<and> length (completedActionPtrs d') \<le> length (completedActionPtrs d)
      \<and> maxConcurrentActions d' = maxConcurrentActions d
      \<and> set (actionsByTrigger d') \<subseteq> set (actionsByTrigger d)
      \<and> (\<forall>x. gone x d \<longrightarrow> gone x d'))"

text \<open>
  Every reset that does anything takes its action out of the active or the completed set,
  so the size of the two bounds the depth of the recursion.
\<close>

definition unsettled :: "Driver \<Rightarrow> nat" where
  "unsettled d = length (activeActions d) + length (completedActionPtrs d)"

text \<open>An action triggered by the provision \<open>P\<close> is still recorded as such, or is gone.\<close>

definition owed :: "ProvisionPtr \<Rightarrow> ActionPtr \<Rightarrow> Driver \<Rightarrow> bool" where
  "owed P B d = ((P, B) \<in> set (actionsByTrigger d) \<or> gone B d)"

text \<open>
  A driver in which action 1, completed, holds provision 10; action 2 was triggered by
  that provision; action 3, running, looked the provision up; action 4 is pending.
\<close>

definition cascadeDriver :: Driver where
  "cascadeDriver =
     (newDriver ''src'' ''tmp'' (\<lambda>f. None) 2)
       \<lparr>tagTable := [(DEFAULT_TAG, 10)],
        dependencyTable := [(DEFAULT_TAG, 3, Some 10)],
        actionsByTrigger := [(10, 2)],
        pendingActions := [4],
        activeActions := [3],
        completedActionPtrs := [1, 2],
        actionHeap :=
          [1 \<mapsto> (exampleAction DONE False)\<lparr>provisions := [10], providedTags := [[DEFAULT_TAG]]\<rparr>,
           2 \<mapsto> (exampleAction PASSED False)\<lparr>srcfile := ''tmp/a.o''\<rparr>,
           3 \<mapsto> exampleAction RUNNING True,
           4 \<mapsto> exampleAction PENDING False],
        provisionHeap := [10 \<mapsto> \<lparr>file' = ''tmp/a.o'', contentHash = NullHash\<rparr>],
        allocated := 11\<rparr>"

text \<open>
  What a reset does to the pending queue of a consistent driver: the entries that still
  exist keep their places, and what the reset queues comes behind them.
\<close>

definition requeues :: "Driver \<Rightarrow> Driver \<Rightarrow> bool" where
  "requeues d d' =
     (placed d \<longrightarrow>
        placed d' \<and> dom (actionHeap d') \<subseteq> dom (actionHeap d)
        \<and> (\<exists>zs. pendingActions d' =
                   filter (\<lambda>x. actionHeap d' x \<noteq> None) (pendingActions d) @ zs
                 \<and> set zs \<inter> set (pendingActions d) = {}))"

text \<open>The active set only loses entries and the bound stays.\<close>

definition calm :: "Driver \<Rightarrow> Driver \<Rightarrow> bool" where
  "calm d d' =
     (set (activeActions d') \<subseteq> set (activeActions d)
      \<and> length (activeActions d') \<le> length (activeActions d)
      \<and> maxConcurrentActions d' = maxConcurrentActions d)"

text \<open>The bound of the specification; a bound below zero lets nothing start.\<close>

definition bounded :: "Driver \<Rightarrow> bool" where
  "bounded d = (int (length (activeActions d)) \<le> max 0 (maxConcurrentActions d))"

text \<open>
  A source tree with two files, a factory that makes an action for every file, and the
  driver for them with room for one running action.
\<close>

definition exampleTree :: FileTree where
  "exampleTree = Directory ''src'' [RegularFile ''src/a.cpp'', RegularFile ''src/b.cpp'']"

definition exampleFactory :: ActionFactory where
  "exampleFactory =
     \<lparr>enumerateTriggerTags = [DEFAULT_TAG],
      tryMakeAction = (\<lambda>tag f. Some \<lparr>getVerb = ''compile'', isSilent = False\<rparr>)\<rparr>"

definition freshDriver :: Driver where
  "freshDriver = addActionFactory exampleFactory (newDriver ''src'' ''tmp'' (\<lambda>f. None) 1)"

text \<open>
  A set \<open>C\<close> of actions is closed under the cascade of section 4.2 when, with \<open>Ps\<close> the
  provisions of its members, it holds every action that the dependency table records as
  having looked up a provision in \<open>Ps\<close> and every action triggered by one.
\<close>

definition cascadeClosed :: "Driver \<Rightarrow> ActionPtr set \<Rightarrow> ProvisionPtr set \<Rightarrow> bool" where
  "cascadeClosed d C Ps =
     ((\<forall>a \<in> C. case actionHeap d a of None \<Rightarrow> True | Some r \<Rightarrow> set (provisions r) \<subseteq> Ps)
      \<and> (\<forall>row \<in> set (dependencyTable d).
            case snd (snd row) of None \<Rightarrow> True | Some p \<Rightarrow> p \<in> Ps \<longrightarrow> fst (snd row) \<in> C)
      \<and> (\<forall>row \<in> set (actionsByTrigger d). fst row \<in> Ps \<longrightarrow> snd row \<in> C))"

text \<open>The actions outside \<open>C\<close> are as they were, and in the queues they were in.\<close>

definition untouched :: "ActionPtr set \<Rightarrow> Driver \<Rightarrow> Driver \<Rightarrow> bool" where
  "untouched C d d' =
     (\<forall>x. x \<notin> C \<longrightarrow>
        actionHeap d' x = actionHeap d x
        \<and> (x \<in> set (pendingActions d') \<longleftrightarrow> x \<in> set (pendingActions d))
        \<and> (x \<in> set (activeActions d') \<longleftrightarrow> x \<in> set (activeActions d))
        \<and> (x \<in> set (completedActionPtrs d') \<longleftrightarrow> x \<in> set (completedActionPtrs d)))"

definition keepsClosed :: "ActionPtr set \<Rightarrow> ProvisionPtr set \<Rightarrow> Driver \<Rightarrow> Driver \<Rightarrow> bool" where
  "keepsClosed C Ps d d' = (cascadeClosed d C Ps \<longrightarrow> cascadeClosed d' C Ps)"

text \<open>Closed before implies closed after, and nothing outside \<open>C\<close> moved.\<close>

definition within :: "ActionPtr set \<Rightarrow> ProvisionPtr set \<Rightarrow> Driver \<Rightarrow> Driver \<Rightarrow> bool" where
  "within C Ps d d' = (cascadeClosed d C Ps \<longrightarrow> cascadeClosed d' C Ps \<and> untouched C d d')"

text \<open>
  A driver in which \<open>src/bar/a.h\<close> (provision 12) has just been put under the tag of \<open>a.h\<close>,
  next to \<open>src/foo/a.h\<close> (provision 10). Actions 1, 3 and 5 are completed and each looked
  the tag up: action 1, made for \<open>src/bar/x.cpp\<close>, got provision 10; action 3, made for
  \<open>src/foo/y.cpp\<close>, got provision 10 as well and also looked up the output of action 1,
  provision 11; action 5, made for \<open>src/bar/z.cpp\<close>, found nothing under another tag.
\<close>

definition supersededDriver :: Driver where
  "supersededDriver =
     (newDriver ''src'' ''tmp'' (\<lambda>f. None) 2)
       \<lparr>tagTable := [(fromFile ''a.h'', 10), (fromFile ''x.o'', 11), (fromFile ''a.h'', 12)],
        dependencyTable :=
          [(fromFile ''a.h'', 1, Some 10), (fromFile ''a.h'', 3, Some 10),
           (fromFile ''x.o'', 3, Some 11), (fromFile ''z.h'', 5, None)],
        completedActionPtrs := [1, 3, 5],
        rootProvisions := [10, 12],
        actionHeap :=
          [1 \<mapsto> (exampleAction DONE False)\<lparr>srcfile := ''src/bar/x.cpp'', provisions := [11]\<rparr>,
           3 \<mapsto> (exampleAction DONE False)\<lparr>srcfile := ''src/foo/y.cpp''\<rparr>,
           5 \<mapsto> (exampleAction DONE False)\<lparr>srcfile := ''src/bar/z.cpp''\<rparr>],
        provisionHeap := [10 \<mapsto> \<lparr>file' = ''src/foo/a.h'', contentHash = NullHash\<rparr>,
                          11 \<mapsto> \<lparr>file' = ''tmp/x.o'', contentHash = NullHash\<rparr>,
                          12 \<mapsto> \<lparr>file' = ''src/bar/a.h'', contentHash = NullHash\<rparr>],
        allocated := 13\<rparr>"

text \<open>The number of provisions that an action holds; none when the action does not exist.\<close>

definition plen :: "ActionPtr \<Rightarrow> Driver \<Rightarrow> nat" where
  "plen x d = (case actionHeap d x of None \<Rightarrow> 0 | Some r \<Rightarrow> length (provisions r))"

text \<open>
  What registering a provider, with the resets and the new actions it sets off, does to
  the actions: the active and the completed set together do not grow, no action gains a
  provision, and an action that is not PENDING afterwards existed before with the same
  state and the same queued callback, and is still active when it was.
\<close>

definition mends :: "Driver \<Rightarrow> Driver \<Rightarrow> bool" where
  "mends d d' =
     (unsettled d' \<le> unsettled d
      \<and> (\<forall>x. plen x d' \<le> plen x d)
      \<and> (\<forall>x r'. actionHeap d' x = Some r' \<longrightarrow> state r' \<noteq> PENDING \<longrightarrow>
            (\<exists>r. actionHeap d x = Some r \<and> state r = state r'
                \<and> asyncCallbackOp r = asyncCallbackOp r'
                \<and> (x \<in> set (activeActions d) \<longrightarrow> x \<in> set (activeActions d')))))"

text \<open>The actions whose state is RUNNING.\<close>

definition runningActions :: "Driver \<Rightarrow> ActionPtr set" where
  "runningActions d = {x. \<exists>r. actionHeap d x = Some r \<and> state r = RUNNING}"

text \<open>
  An action whose state is RUNNING is in the active set, and its done callback is not
  queued.
\<close>

definition tidy :: "Driver \<Rightarrow> bool" where
  "tidy d = (\<forall>x r. actionHeap d x = Some r \<longrightarrow> state r = RUNNING \<longrightarrow>
               x \<in> set (activeActions d) \<and> asyncCallbackOp r \<noteq> Some DoneCallback)"

text \<open>
  What the cascade of a reset can be told by. The action \<open>a\<close> is not PENDING and holds the
  provision \<open>P\<close>; no row of \<open>actionsByTrigger\<close> or of the dependency table names \<open>P\<close>; the
  action \<open>B\<close> is PENDING or no longer exists; \<open>B\<close> is recorded as having looked \<open>P\<close> up, or
  is PENDING or gone.
\<close>

definition intact :: "ActionPtr \<Rightarrow> ProvisionPtr \<Rightarrow> Driver \<Rightarrow> bool" where
  "intact a P d =
     (case actionHeap d a of None \<Rightarrow> False | Some r \<Rightarrow> state r \<noteq> PENDING \<and> P \<in> set (provisions r))"

definition erased :: "ProvisionPtr \<Rightarrow> Driver \<Rightarrow> bool" where
  "erased P d =
     (P \<notin> fst ` set (actionsByTrigger d) \<and> Some P \<notin> (\<lambda>row. snd (snd row)) ` set (dependencyTable d))"

definition idle :: "ActionPtr \<Rightarrow> Driver \<Rightarrow> bool" where
  "idle B d = (case actionHeap d B of None \<Rightarrow> True | Some r \<Rightarrow> state r = PENDING)"

definition sought :: "ProvisionPtr \<Rightarrow> ActionPtr \<Rightarrow> Driver \<Rightarrow> bool" where
  "sought P B d = ((\<exists>t. (t, B, Some P) \<in> set (dependencyTable d)) \<or> idle B d)"

text \<open>A reset adds no row to the dependency table or to \<open>actionsByTrigger\<close>.\<close>

definition loses :: "Driver \<Rightarrow> Driver \<Rightarrow> bool" where
  "loses d d' =
     (set (dependencyTable d') \<subseteq> set (dependencyTable d)
      \<and> set (actionsByTrigger d') \<subseteq> set (actionsByTrigger d))"

text \<open>
  The driver \<open>supersededDriver\<close> before provision 12 is put under the tag of \<open>a.h\<close>, with
  one more completed action, 7, which the output of action 1 (provision 11) triggered.
\<close>

definition staleDriver :: Driver where
  "staleDriver =
     supersededDriver
       \<lparr>tagTable := [(fromFile ''a.h'', 10), (fromFile ''x.o'', 11)],
        actionsByTrigger := [(11, 7)],
        completedActionPtrs := [1, 3, 5, 7],
        actionHeap :=
          (actionHeap supersededDriver)
            (7 \<mapsto> (exampleAction DONE False)\<lparr>srcfile := ''tmp/x.o''\<rparr>)\<rparr>"

text \<open>
  A run of the driver on a source tree with one file, with the factory that makes an
  action for every file under the default tag and room for one running action. Action 1
  (for \<open>src/a.cpp\<close>) looks up the name \<open>lib\<close>, which nothing provides yet, provides
  \<open>tmp/a.o\<close> (provision 2) under the default tag and the name \<open>obj\<close>, and passes; its output
  triggers action 3, which looks up \<open>obj\<close>, provides \<open>tmp/a.bin\<close> (provision 4) and passes;
  that output triggers action 5, which looks up \<open>obj\<close> too, provides \<open>tmp/lib.a\<close>
  (provision 6) under the name \<open>lib\<close> and passes. \<open>faultDisk\<close> is the disk with the given
  files; the event manager runs a callback only when it is queued.
\<close>

definition faultTree :: FileTree where
  "faultTree = Directory ''src'' [RegularFile ''src/a.cpp'']"

definition faultDisk :: "File list \<Rightarrow> File \<Rightarrow> Hash option" where
  "faultDisk files f = (if f \<in> set files then Some (ContentHash 0) else None)"

definition faultStart :: Driver where
  "faultStart = addActionFactory exampleFactory (newDriver ''src'' ''tmp'' (faultDisk [''src/a.cpp'']) 1)"

definition startCallbackOf :: "ActionPtr \<Rightarrow> Driver \<Rightarrow> (Error + Driver) option" where
  "startCallbackOf a d =
     (case actionHeap d a of
        None \<Rightarrow> None
      | Some self \<Rightarrow>
          (if asyncCallbackOp self = Some StartCallback then Some (StartCallback_run a True d)
           else None))"

definition doneCallbackOf :: "ActionPtr \<Rightarrow> Driver \<Rightarrow> (Error + Driver) option" where
  "doneCallbackOf a d =
     (case actionHeap d a of
        None \<Rightarrow> None
      | Some self \<Rightarrow>
          (if asyncCallbackOp self = Some DoneCallback then DoneCallback_run 0 (\<lambda>a. None) a d
           else None))"

definition findProviderOf :: "ActionPtr \<Rightarrow> Tag \<Rightarrow> Driver \<Rightarrow> (Error + Driver) option" where
  "findProviderOf a tag d = Some (map_sum id snd (findProvider a tag d))"

definition faultRun :: "(Error + Driver) option" where
  "faultRun =
     andThen (Driver_start 0 (\<lambda>a. None) faultTree faultStart) (\<lambda>d.
     andThen (startCallbackOf 1 d) (\<lambda>d.
     andThen (findProviderOf 1 (fromName ''lib'') d) (\<lambda>d.
     andThen (Some (provide 1 ''tmp/a.o'' [DEFAULT_TAG, fromName ''obj''] d)) (\<lambda>d.
     andThen (Some (passed 1 d)) (\<lambda>d.
     andThen (doneCallbackOf 1 (d\<lparr>disk := faultDisk [''src/a.cpp'', ''tmp/a.o'']\<rparr>)) (\<lambda>d.
     andThen (startCallbackOf 3 d) (\<lambda>d.
     andThen (findProviderOf 3 (fromName ''obj'') d) (\<lambda>d.
     andThen (Some (provide 3 ''tmp/a.bin'' [DEFAULT_TAG] d)) (\<lambda>d.
     andThen (Some (passed 3 d)) (\<lambda>d.
     andThen (doneCallbackOf 3
                (d\<lparr>disk := faultDisk [''src/a.cpp'', ''tmp/a.o'', ''tmp/a.bin'']\<rparr>)) (\<lambda>d.
     andThen (startCallbackOf 5 d) (\<lambda>d.
     andThen (findProviderOf 5 (fromName ''obj'') d) (\<lambda>d.
     andThen (Some (provide 5 ''tmp/lib.a'' [fromName ''lib''] d)) (\<lambda>d.
     andThen (Some (passed 5 d)) (\<lambda>d.
     Some (Inr (d\<lparr>disk := faultDisk [''src/a.cpp'', ''tmp/a.o'', ''tmp/a.bin'',
                                       ''tmp/lib.a'']\<rparr>)))))))))))))))))"

text \<open>
  The state at the end of that run: actions 1 and 3 are completed, in state PASSED, and
  hold provisions 2 and 4; action 5 has passed and its done callback is queued. Action 3
  was triggered by provision 2 and action 5 by provision 4, and both looked provision 2
  up.
\<close>

definition faultAction :: "File \<Rightarrow> ProvisionPtr list \<Rightarrow> ActionDriver" where
  "faultAction f ps =
     \<lparr>action = \<lparr>getVerb = ''compile'', isSilent = False\<rparr>, srcfile = f,
      srcHash = ContentHash 0,
      dashboardTask = setState Dashboard_PASSED (beginTask ''compile'' f NORMAL),
      state = PASSED, asyncCallbackOp = None, isRunning = False, runningAction = False,
      outputs = [], provisions = ps, providedTags = []\<rparr>"

definition faultDriver :: Driver where
  "faultDriver =
     (newDriver ''src'' ''tmp''
        (faultDisk [''src/a.cpp'', ''tmp/a.o'', ''tmp/a.bin'', ''tmp/lib.a'']) 1)
       \<lparr>triggers := [(DEFAULT_TAG, exampleFactory)],
        tagTable := [(DEFAULT_TAG, 0), (DEFAULT_TAG, 2), (fromName ''obj'', 2), (DEFAULT_TAG, 4)],
        dependencyTable :=
          [(fromName ''lib'', 1, None), (fromName ''obj'', 3, Some 2),
           (fromName ''obj'', 5, Some 2)],
        actionsByTrigger := [(0, 1), (2, 3), (4, 5)],
        activeActions := [5],
        completedActionPtrs := [1, 3],
        rootProvisions := [0],
        actionHeap :=
          [1 \<mapsto> faultAction ''src/a.cpp'' [2], 3 \<mapsto> faultAction ''tmp/a.o'' [4],
           5 \<mapsto> (faultAction ''tmp/a.bin'' [6])
                   \<lparr>dashboardTask :=
                      setState Dashboard_RUNNING (beginTask ''compile'' ''tmp/a.bin'' NORMAL),
                    asyncCallbackOp := Some DoneCallback, isRunning := True,
                    runningAction := True, providedTags := [[fromName ''lib'']]\<rparr>],
        provisionHeap :=
          [0 \<mapsto> \<lparr>file' = ''src/a.cpp'', contentHash = ContentHash 0\<rparr>,
           2 \<mapsto> \<lparr>file' = ''tmp/a.o'', contentHash = ContentHash 0\<rparr>,
           4 \<mapsto> \<lparr>file' = ''tmp/a.bin'', contentHash = ContentHash 0\<rparr>,
           6 \<mapsto> \<lparr>file' = ''tmp/lib.a'', contentHash = NullHash\<rparr>],
        allocated := 7\<rparr>"

section \<open>Properties\<close>

subsection \<open>The preferred provider\<close>








subsection \<open>Terminal transitions\<close>






subsection \<open>The not-running error\<close>

lemma chooseLoop_not_NotRunning: "chooseLoop heap s cs b \<noteq> Inl NotRunning"
  by (induction cs arbitrary: b) (auto split: option.splits)

lemma choosePreferredProvider_not_NotRunning: "choosePreferredProvider this tag d \<noteq> Inl NotRunning"
  using chooseLoop_not_NotRunning
  by (auto simp: choosePreferredProvider_def Let_def split: list.splits option.splits sum.splits)

lemma findProvision_not_NotRunning: "findProvision heap ps f i \<noteq> Inl NotRunning"
  by (induction ps arbitrary: i) (auto split: option.splits)

lemma queueNewAction_not_NotRunning: "queueNewAction a p d \<noteq> Inl NotRunning"
  by (auto simp: queueNewAction_def split: option.splits)

lemma rescanTag_not_NotRunning: "rescanTag factory tag ps d \<noteq> Inl NotRunning"
  using queueNewAction_not_NotRunning
  by (induction ps arbitrary: d) (auto split: option.splits sum.splits)

lemma rescanTags_not_NotRunning: "rescanTags factory tags d \<noteq> Inl NotRunning"
  using rescanTag_not_NotRunning
  by (induction tags arbitrary: d) (auto split: option.splits sum.splits)

lemma findProvider_running:
  "actionHeap d this = Some self \<Longrightarrow> isRunning self \<Longrightarrow> findProvider this tag d \<noteq> Inl NotRunning"
  using choosePreferredProvider_not_NotRunning[of this tag d]
  by (auto simp: findProvider_def ensureRunning_def split: option.splits sum.splits)

lemma provide_running:
  "actionHeap d this = Some self \<Longrightarrow> isRunning self \<Longrightarrow> provide this f tags d \<noteq> Inl NotRunning"
  using findProvision_not_NotRunning[of "provisionHeap d" "provisions self" f 0]
  by (auto simp: provide_def ensureRunning_def split: option.splits sum.splits)

text \<open>
  C9, as amended. Every BuildContext method of an existing action raises the not-running
  error when the flag \<open>isRunning\<close> is false, and does not raise it when the flag is true,
  whatever the state: between a terminal transition and the done callback the methods
  still work.
\<close>

theorem notRunning_iff_flag:
  assumes "actionHeap d this = Some self"
  shows "(\<not> isRunning self \<longrightarrow>
            findProvider this tag d = Inl NotRunning \<and> findInput this path d = Inl NotRunning
            \<and> provide this f tags d = Inl NotRunning \<and> newOutput this path d = Inl NotRunning
            \<and> log this text d = Inl NotRunning
            \<and> addActionType this factory d = Inl NotRunning
            \<and> passed this d = Inl NotRunning \<and> failed this d = Inl NotRunning)
       \<and> (isRunning self \<longrightarrow>
            findProvider this tag d \<noteq> Inl NotRunning \<and> findInput this path d \<noteq> Inl NotRunning
            \<and> provide this f tags d \<noteq> Inl NotRunning \<and> newOutput this path d \<noteq> Inl NotRunning
            \<and> log this text d \<noteq> Inl NotRunning
            \<and> addActionType this factory d \<noteq> Inl NotRunning
            \<and> passed this d \<noteq> Inl NotRunning \<and> failed this d \<noteq> Inl NotRunning)"
proof (intro conjI impI)
  assume nr: "\<not> isRunning self"
  show "findProvider this tag d = Inl NotRunning"
    using assms nr by (simp add: findProvider_def ensureRunning_def)
  show "findInput this path d = Inl NotRunning"
    using assms nr by (simp add: findInput_def ensureRunning_def)
  show "provide this f tags d = Inl NotRunning"
    using assms nr by (simp add: provide_def ensureRunning_def)
  show "newOutput this path d = Inl NotRunning"
    using assms nr by (simp add: newOutput_def ensureRunning_def)
  show "log this text d = Inl NotRunning"
    using assms nr by (simp add: log_def ensureRunning_def)
  show "addActionType this factory d = Inl NotRunning"
    using assms nr by (simp add: addActionType_def ensureRunning_def)
  show "passed this d = Inl NotRunning"
    using assms nr by (simp add: passed_def ensureRunning_def)
  show "failed this d = Inl NotRunning"
    using assms nr by (simp add: failed_def ensureRunning_def)
next
  assume r: "isRunning self"
  show "findProvider this tag d \<noteq> Inl NotRunning"
    using findProvider_running[OF assms r] .
  show "findInput this path d \<noteq> Inl NotRunning"
    using findProvider_running[OF assms r] assms r by (simp add: findInput_def ensureRunning_def)
  show "provide this f tags d \<noteq> Inl NotRunning"
    using provide_running[OF assms r] .
  show "newOutput this path d \<noteq> Inl NotRunning"
    using provide_running[OF assms r, of "relative (tmp d) path" "[DEFAULT_TAG]"] assms r
    by (auto simp: newOutput_def ensureRunning_def split: sum.splits option.splits)
  show "log this text d \<noteq> Inl NotRunning"
    using assms r by (simp add: log_def ensureRunning_def)
  show "addActionType this factory d \<noteq> Inl NotRunning"
    using assms r rescanTags_not_NotRunning
    by (auto simp: addActionType_def ensureRunning_def rescanForNewFactory_def split: sum.splits)
  show "passed this d \<noteq> Inl NotRunning"
    using assms r by (simp add: passed_def ensureRunning_def)
  show "failed this d \<noteq> Inl NotRunning"
    using assms r by (simp add: failed_def ensureRunning_def)
qed

theorem notRunning_iff_flag_witness:
  "findProvider 2 DEFAULT_TAG (exampleDriver DONE False) = Inl NotRunning
   \<and> failed 2 (exampleDriver DONE False) = Inl NotRunning
   \<and> log 2 ''text'' (exampleDriver RUNNING True) \<noteq> Inl NotRunning
   \<and> passed 2 (exampleDriver PASSED True) \<noteq> Inl NotRunning"
  using notRunning_iff_flag[of "exampleDriver DONE False" 2 "exampleAction DONE False" DEFAULT_TAG]
    notRunning_iff_flag[of "exampleDriver RUNNING True" 2 "exampleAction RUNNING True"
       _ _ _ _ "''text''"]
    notRunning_iff_flag[of "exampleDriver PASSED True" 2 "exampleAction PASSED True"]
  by (simp add: exampleDriver_def exampleAction_def)

text \<open>
  C9 as stated fails: an action that has called \<open>passed()\<close> is in the terminal state PASSED,
  not RUNNING, and until its done callback runs \<open>log\<close> and \<open>passed\<close> do not raise the
  not-running error.
\<close>

theorem notRunning_after_terminal_counterexample:
  "map_option state (actionHeap (exampleDriver PASSED True) 2) = Some PASSED
   \<and> log 2 ''late output'' (exampleDriver PASSED True) \<noteq> Inl NotRunning
   \<and> passed 2 (exampleDriver PASSED True) \<noteq> Inl NotRunning"
  by (simp add: exampleDriver_def exampleAction_def log_def passed_def ensureRunning_def newDriver_def)

subsection \<open>provide\<close>

lemma findProvision_live:
  "\<forall>p \<in> set ps. heap p \<noteq> None \<Longrightarrow> \<exists>r. findProvision heap ps f k = Inr r"
  by (induction ps arbitrary: k) auto

lemma findProvision_None:
  "findProvision heap ps f k = Inr None \<Longrightarrow> \<forall>p \<in> set ps. \<not> holdsFile heap f p"
proof (induction ps arbitrary: k)
  case Nil
  then show ?case by simp
next
  case (Cons p ps)
  from Cons.prems obtain pr where pr: "heap p = Some pr" "\<not> equals (file' pr) f"
      "findProvision heap ps f (Suc k) = Inr None"
    by (auto split: option.splits if_splits)
  from Cons.IH[OF pr(3)] pr(1,2) show ?case by (simp add: holdsFile_def)
qed

lemma findProvision_Some:
  "findProvision heap ps f k = Inr (Some i) \<Longrightarrow>
     k \<le> i \<and> i - k < length ps \<and> holdsFile heap f (ps ! (i - k))
     \<and> (\<forall>j < i - k. \<not> holdsFile heap f (ps ! j))"
proof (induction ps arbitrary: k)
  case Nil
  then show ?case by simp
next
  case (Cons p ps)
  from Cons.prems obtain pr where pr: "heap p = Some pr" by (auto split: option.splits)
  show ?case
  proof (cases "equals (file' pr) f")
    case True
    then show ?thesis using Cons.prems pr by (simp add: holdsFile_def)
  next
    case False
    then have rec: "findProvision heap ps f (Suc k) = Inr (Some i)" using Cons.prems pr by simp
    from Cons.IH[OF rec] have ih: "Suc k \<le> i" "i - Suc k < length ps"
       "holdsFile heap f (ps ! (i - Suc k))" "\<forall>j < i - Suc k. \<not> holdsFile heap f (ps ! j)"
      by auto
    have e: "i - k = Suc (i - Suc k)" using ih(1) by simp
    have np: "\<not> holdsFile heap f p" using False pr by (simp add: holdsFile_def)
    have "\<forall>j < i - k. \<not> holdsFile heap f ((p # ps) ! j)"
    proof (intro allI impI)
      fix j assume "j < i - k"
      then show "\<not> holdsFile heap f ((p # ps) ! j)"
        using ih(4) np e by (cases j) auto
    qed
    then show ?thesis using ih e by simp
  qed
qed

lemma filesOf_same:
  "\<forall>p \<in> set ps. map_option file' (h' p) = map_option file' (h p) \<Longrightarrow> filesOf h' ps = filesOf h ps"
  by (simp add: filesOf_def)

text \<open>
  C6. Let a running action hold provisions that all exist, with as many tag lists as
  provisions, and let the next address be unused. Then \<open>provide(file, tags)\<close> returns
  normally. If a provision of the action has a file equal to \<open>file\<close>, no provision is
  created (the provisions of the action, the heap of provisions and the allocation count
  are unchanged) and \<open>tags\<close> is appended to the tag list of the first such provision, whose
  set of tags becomes the union. Otherwise one provision is created at the back, with the
  file \<open>file\<close> and exactly the tags \<open>tags\<close>. Either way, if no two provisions of the action
  had equal files before the call, none have after it.
\<close>

theorem provide_deduplicates:
  assumes self: "actionHeap d this = Some self" and run: "isRunning self"
    and live: "\<forall>p \<in> set (provisions self). provisionHeap d p \<noteq> None"
    and len: "length (providedTags self) = length (provisions self)"
    and fresh: "provisionHeap d (allocated d) = None"
  shows "\<exists>d' self'. provide this f tags d = Inr d' \<and> actionHeap d' this = Some self'
     \<and> (if \<exists>p \<in> set (provisions self). holdsFile (provisionHeap d) f p
         then provisions self' = provisions self \<and> provisionHeap d' = provisionHeap d
              \<and> allocated d' = allocated d
              \<and> (\<exists>i < length (provisions self).
                     holdsFile (provisionHeap d) f (provisions self ! i)
                     \<and> providedTags self' = (providedTags self)[i := providedTags self ! i @ tags]
                     \<and> set (providedTags self' ! i) = set (providedTags self ! i) \<union> set tags)
         else provisions self' = provisions self @ [allocated d]
              \<and> providedTags self' = providedTags self @ [tags]
              \<and> provisionHeap d' =
                  (provisionHeap d)(allocated d \<mapsto> \<lparr>file' = f, contentHash = NullHash\<rparr>))
     \<and> (distinct (filesOf (provisionHeap d) (provisions self))
          \<longrightarrow> distinct (filesOf (provisionHeap d') (provisions self')))"
proof -
  from findProvision_live[OF live] obtain r
    where r: "findProvision (provisionHeap d) (provisions self) f 0 = Inr r" by blast
  show ?thesis
  proof (cases r)
    case None
    let ?self' = "self\<lparr>provisions := provisions self @ [allocated d],
                       providedTags := providedTags self @ [tags]\<rparr>"
    let ?h' = "(provisionHeap d)(allocated d \<mapsto> \<lparr>file' = f, contentHash = NullHash\<rparr>)"
    let ?d' = "setAction this ?self' (d\<lparr>provisionHeap := ?h', allocated := Suc (allocated d)\<rparr>)"
    have no: "\<forall>p \<in> set (provisions self). \<not> holdsFile (provisionHeap d) f p"
      using findProvision_None r None by blast
    have p: "provide this f tags d = Inr ?d'"
      using self run r None by (simp add: provide_def ensureRunning_def)
    have nin: "allocated d \<notin> set (provisions self)" using live fresh by auto
    have same: "filesOf ?h' (provisions self) = filesOf (provisionHeap d) (provisions self)"
      using nin by (intro filesOf_same) auto
    have notin: "Some f \<notin> set (filesOf (provisionHeap d) (provisions self))"
    proof
      assume "Some f \<in> set (filesOf (provisionHeap d) (provisions self))"
      then obtain p where p: "p \<in> set (provisions self)"
          "map_option file' (provisionHeap d p) = Some f"
        by (auto simp: filesOf_def eq_commute[of "Some f"])
      then obtain pr where "provisionHeap d p = Some pr" "file' pr = f" by auto
      then have "holdsFile (provisionHeap d) f p" by (simp add: holdsFile_def equals_def)
      with no p(1) show False by blast
    qed
    have dist: "distinct (filesOf (provisionHeap d) (provisions self))
                 \<longrightarrow> distinct (filesOf ?h' (provisions self @ [allocated d]))"
    proof
      assume dd: "distinct (filesOf (provisionHeap d) (provisions self))"
      have "filesOf ?h' (provisions self @ [allocated d])
              = filesOf (provisionHeap d) (provisions self) @ [Some f]"
        using same by (simp add: filesOf_def)
      then show "distinct (filesOf ?h' (provisions self @ [allocated d]))"
        using dd notin by simp
    qed
    show ?thesis
      apply (rule exI[of _ ?d'], rule exI[of _ ?self'])
      using p no dist by (simp add: setAction_def)
  next
    case (Some i)
    from findProvision_Some[of "provisionHeap d" "provisions self" f 0 i] r Some
    have i: "i < length (provisions self)" "holdsFile (provisionHeap d) f (provisions self ! i)"
      by auto
    from i(2) obtain pr where pr: "provisionHeap d (provisions self ! i) = Some pr" "file' pr = f"
      by (auto simp: holdsFile_def equals_def split: option.splits)
    let ?self' = "self\<lparr>providedTags := (providedTags self)[i := providedTags self ! i @ tags]\<rparr>"
    have heap: "(provisionHeap d)(provisions self ! i \<mapsto> \<lparr>file' = f, contentHash = contentHash pr\<rparr>)
                 = provisionHeap d"
      using pr by (auto simp: fun_upd_idem_iff)
    have p: "provide this f tags d = Inr (setAction this ?self' d)"
      using self run r Some i(1) len pr heap by (simp add: provide_def ensureRunning_def)
    have ex: "\<exists>p \<in> set (provisions self). holdsFile (provisionHeap d) f p"
      using i by (meson nth_mem)
    show ?thesis
      apply (rule exI[of _ "setAction this ?self' d"], rule exI[of _ ?self'])
      using p ex i len by (auto simp: setAction_def)
  qed
qed

theorem provide_deduplicates_witness:
  "(\<exists>d' self'. provide 2 ''tmp/x.o'' [fromName ''bin''] provideDriver = Inr d'
       \<and> actionHeap d' 2 = Some self' \<and> provisions self' = [3, 4]
       \<and> providedTags self' = [[DEFAULT_TAG, fromName ''bin''], [fromName ''obj'']]
       \<and> distinct (filesOf (provisionHeap d') (provisions self')))
   \<and> (\<exists>d' self'. provide 2 ''tmp/y.o'' [fromName ''bin''] provideDriver = Inr d'
       \<and> actionHeap d' 2 = Some self' \<and> provisions self' = [3, 4, 5]
       \<and> providedTags self' = [[DEFAULT_TAG], [fromName ''obj''], [fromName ''bin'']]
       \<and> distinct (filesOf (provisionHeap d') (provisions self')))"
proof -
  let ?self = "(exampleAction RUNNING True)
                 \<lparr>provisions := [3, 4], providedTags := [[DEFAULT_TAG], [fromName ''obj'']]\<rparr>"
  have self: "actionHeap provideDriver 2 = Some ?self" by (simp add: provideDriver_def)
  have run: "isRunning ?self" by (simp add: exampleAction_def)
  have live: "\<forall>p \<in> set (provisions ?self). provisionHeap provideDriver p \<noteq> None"
    by (simp add: provideDriver_def)
  have len: "length (providedTags ?self) = length (provisions ?self)" by simp
  have fresh: "provisionHeap provideDriver (allocated provideDriver) = None"
    by (simp add: provideDriver_def)
  have dist: "distinct (filesOf (provisionHeap provideDriver) (provisions ?self))"
    by (simp add: provideDriver_def filesOf_def)
  have holds: "\<exists>p \<in> set (provisions ?self). holdsFile (provisionHeap provideDriver) ''tmp/x.o'' p"
      "\<not> (\<exists>p \<in> set (provisions ?self). holdsFile (provisionHeap provideDriver) ''tmp/y.o'' p)"
    by (simp_all add: provideDriver_def holdsFile_def equals_def)
  have first: "\<not> holdsFile (provisionHeap provideDriver) ''tmp/x.o'' 4"
    by (simp add: provideDriver_def holdsFile_def equals_def)
  from provide_deduplicates[OF self run live len fresh, of "''tmp/x.o''" "[fromName ''bin'']"]
    holds(1) dist
  obtain d1 self1 i where 1: "provide 2 ''tmp/x.o'' [fromName ''bin''] provideDriver = Inr d1"
      "actionHeap d1 2 = Some self1" "provisions self1 = provisions ?self"
      "i < length (provisions ?self)"
      "holdsFile (provisionHeap provideDriver) ''tmp/x.o'' (provisions ?self ! i)"
      "providedTags self1 = (providedTags ?self)[i := providedTags ?self ! i @ [fromName ''bin'']]"
      "distinct (filesOf (provisionHeap d1) (provisions self1))"
    by auto
  have i0: "i = 0" using 1(4,5) first by (cases i) auto
  from provide_deduplicates[OF self run live len fresh, of "''tmp/y.o''" "[fromName ''bin'']"]
    holds(2) dist
  obtain d2 self2 where 2: "provide 2 ''tmp/y.o'' [fromName ''bin''] provideDriver = Inr d2"
      "actionHeap d2 2 = Some self2"
      "provisions self2 = provisions ?self @ [allocated provideDriver]"
      "providedTags self2 = providedTags ?self @ [[fromName ''bin'']]"
      "distinct (filesOf (provisionHeap d2) (provisions self2))"
    by auto
  have a: "allocated provideDriver = 5" by (simp add: provideDriver_def)
  show ?thesis using 1(1,2,3,6,7) i0 2 a by simp
qed

subsection \<open>The reset cascade\<close>

lemma andThen_Inr:
  "andThen m f = Some (Inr y) \<longleftrightarrow> (\<exists>x. m = Some (Inr x) \<and> f x = Some (Inr y))"
  by (auto simp: andThen_def split: option.splits sum.splits)

lemma andThen_None:
  "andThen m f = None \<longleftrightarrow> m = None \<or> (\<exists>x. m = Some (Inr x) \<and> f x = None)"
  by (auto simp: andThen_def split: option.splits sum.splits)

lemma forEach_rel:
  assumes rf: "reflp R"
    and tr: "transp R"
    and step: "\<forall>x \<in> set xs. \<forall>d d'. f x d = Some (Inr d') \<longrightarrow> R d d'"
    and run: "forEach f xs d = Some (Inr d')"
  shows "R d d'"
  using step run
proof (induction xs arbitrary: d)
  case Nil
  then show ?case using rf by (simp add: reflpD)
next
  case (Cons x xs)
  from Cons.prems(2) obtain d1 where d1: "f x d = Some (Inr d1)" "forEach f xs d1 = Some (Inr d')"
    by (auto simp: andThen_Inr)
  have "R d d1" using Cons.prems(1) d1(1) by simp
  moreover have "R d1 d'" using Cons.IH[OF _ d1(2)] Cons.prems(1) by simp
  ultimately show ?case using tr by (blast dest: transpD)
qed

lemma reset_rel:
  assumes rf: "reflp R"
    and tr: "transp R"
    and requeue: "\<And>this self d d1. actionHeap d this = Some self \<Longrightarrow> state self \<noteq> PENDING \<Longrightarrow>
                    requeue this self d = Inr d1 \<Longrightarrow> R d d1"
    and delete: "\<And>x d. x \<in> set (pendingActions d) \<Longrightarrow>
                    R d (deleteActionDriver x (d\<lparr>pendingActions := releaseLast x (pendingActions d)\<rparr>))"
    and eraseTriggered: "\<And>p d. R d (d\<lparr>actionsByTrigger :=
                                   filter (\<lambda>row. fst row \<noteq> p) (actionsByTrigger d)\<rparr>)"
    and eraseProvision: "\<And>p d. R d (d\<lparr>tagTable := filter (\<lambda>row. snd row \<noteq> p) (tagTable d),
                                   dependencyTable := filter (\<lambda>row. snd (snd row) \<noteq> Some p)
                                                         (dependencyTable d)\<rparr>)"
    and forget: "\<And>this d d'. forget this d = Some (Inr d') \<Longrightarrow> R d d'"
  shows "reset fuel this d = Some (Inr d') \<Longrightarrow> R d d'"
proof (induction fuel arbitrary: this d d')
  case 0
  then show ?case by simp
next
  case (Suc fuel)
  have refl: "\<And>d. R d d" using rf by (simp add: reflpD)
  have trans: "\<And>a b c. R a b \<Longrightarrow> R b c \<Longrightarrow> R a c" using tr by (blast dest: transpD)
  have rec: "\<And>x d d'. reset fuel x d = Some (Inr d') \<Longrightarrow> R d d'" using Suc.IH .
  have del: "R d d'" if "deleteTriggered (reset fuel) x d = Some (Inr d')" for x d d'
  proof -
    from that obtain d1 where d1: "reset fuel x d = Some (Inr d1)"
      "d' = (if x \<in> set (pendingActions d1)
             then deleteActionDriver x (d1\<lparr>pendingActions := releaseLast x (pendingActions d1)\<rparr>)
             else d1)"
      by (auto simp: deleteTriggered_def andThen_Inr)
    have "R d1 d'" using d1(2) delete refl by auto
    then show ?thesis using rec[OF d1(1)] trans by blast
  qed
  have prov: "R d d'" if "resetProvision (reset fuel) this p d = Some (Inr d')" for this p d d'
  proof -
    from that obtain d1 d2 where
      d1: "forEach (reset fuel) (searchProvision (dependencyTable d) p) d = Some (Inr d1)" and
      d2: "forEach (deleteTriggered (reset fuel)) (equal_range (actionsByTrigger d1) p)
             (d1\<lparr>actionsByTrigger := filter (\<lambda>row. fst row \<noteq> p) (actionsByTrigger d1)\<rparr>)
           = Some (Inr d2)" and
      d': "d' = d2\<lparr>tagTable := filter (\<lambda>row. snd row \<noteq> p) (tagTable d2),
                   dependencyTable := filter (\<lambda>row. snd (snd row) \<noteq> Some p) (dependencyTable d2)\<rparr>"
      by (auto simp: resetProvision_def andThen_Inr split: option.splits)
    have 1: "R d d1" using forEach_rel[where R=R, OF rf tr _ d1] rec by blast
    have 2: "R d1 (d1\<lparr>actionsByTrigger := filter (\<lambda>row. fst row \<noteq> p) (actionsByTrigger d1)\<rparr>)"
      using eraseTriggered .
    have 3: "R (d1\<lparr>actionsByTrigger := filter (\<lambda>row. fst row \<noteq> p) (actionsByTrigger d1)\<rparr>) d2"
      using forEach_rel[where R=R, OF rf tr _ d2] del by blast
    have 4: "R d2 d'" unfolding d' using eraseProvision .
    show ?thesis using 1 2 3 4 trans by blast
  qed
  from Suc.prems obtain self where self: "actionHeap d this = Some self"
    by (auto split: option.splits)
  show ?case
  proof (cases "state self = PENDING")
    case True
    then show ?thesis using Suc.prems self refl by simp
  next
    case False
    from Suc.prems self False obtain d1 d2 where
      d1: "requeue this self d = Inr d1" and
      d2: "forEach (resetProvision (reset fuel) this) (provisions self) d1 = Some (Inr d2)" and
      d3: "forget this d2 = Some (Inr d')"
      by (auto simp: andThen_Inr split: sum.splits)
    have "R d d1" using requeue[OF self False d1] .
    moreover have "R d1 d2" using forEach_rel[where R=R, OF rf tr _ d2] prov by blast
    moreover have "R d2 d'" using forget[OF d3] .
    ultimately show ?thesis using trans by blast
  qed
qed

lemma deleteTriggered_rel:
  assumes rf: "reflp R" and tr: "transp R"
    and rec: "\<forall>x d d'. resetRec x d = Some (Inr d') \<longrightarrow> R d d'"
    and delete: "\<And>x d. x \<in> set (pendingActions d) \<Longrightarrow>
                    R d (deleteActionDriver x (d\<lparr>pendingActions := releaseLast x (pendingActions d)\<rparr>))"
    and run: "deleteTriggered resetRec x d = Some (Inr d')"
  shows "R d d'"
proof -
  from run obtain d1 where d1: "resetRec x d = Some (Inr d1)"
    "d' = (if x \<in> set (pendingActions d1)
           then deleteActionDriver x (d1\<lparr>pendingActions := releaseLast x (pendingActions d1)\<rparr>)
           else d1)"
    by (auto simp: deleteTriggered_def andThen_Inr)
  have "R d1 d'" using d1(2) delete rf by (auto simp: reflpD)
  moreover have "R d d1" using rec d1(1) by blast
  ultimately show ?thesis using tr by (blast dest: transpD)
qed

lemma resetProvision_parts:
  assumes "resetProvision resetRec this p d = Some (Inr d')"
  shows "\<exists>d1 d2. forEach resetRec (searchProvision (dependencyTable d) p) d = Some (Inr d1)
     \<and> forEach (deleteTriggered resetRec) (equal_range (actionsByTrigger d1) p)
             (d1\<lparr>actionsByTrigger := filter (\<lambda>row. fst row \<noteq> p) (actionsByTrigger d1)\<rparr>)
           = Some (Inr d2)
     \<and> d' = d2\<lparr>tagTable := filter (\<lambda>row. snd row \<noteq> p) (tagTable d2),
                 dependencyTable := filter (\<lambda>row. snd (snd row) \<noteq> Some p) (dependencyTable d2)\<rparr>"
  using assms by (auto simp: resetProvision_def andThen_Inr split: option.splits)

lemma resetProvision_rel:
  assumes rf: "reflp R" and tr: "transp R"
    and rec: "\<forall>x d d'. resetRec x d = Some (Inr d') \<longrightarrow> R d d'"
    and delete: "\<And>x d. x \<in> set (pendingActions d) \<Longrightarrow>
                    R d (deleteActionDriver x (d\<lparr>pendingActions := releaseLast x (pendingActions d)\<rparr>))"
    and eraseTriggered: "\<And>p d. R d (d\<lparr>actionsByTrigger :=
                                   filter (\<lambda>row. fst row \<noteq> p) (actionsByTrigger d)\<rparr>)"
    and eraseProvision: "\<And>p d. R d (d\<lparr>tagTable := filter (\<lambda>row. snd row \<noteq> p) (tagTable d),
                                   dependencyTable := filter (\<lambda>row. snd (snd row) \<noteq> Some p)
                                                         (dependencyTable d)\<rparr>)"
    and run: "resetProvision resetRec this p d = Some (Inr d')"
  shows "R d d'"
proof -
  have trans: "\<And>a b c. R a b \<Longrightarrow> R b c \<Longrightarrow> R a c" using tr by (blast dest: transpD)
  from resetProvision_parts[OF run] obtain d1 d2 where
    d1: "forEach resetRec (searchProvision (dependencyTable d) p) d = Some (Inr d1)" and
    d2: "forEach (deleteTriggered resetRec) (equal_range (actionsByTrigger d1) p)
           (d1\<lparr>actionsByTrigger := filter (\<lambda>row. fst row \<noteq> p) (actionsByTrigger d1)\<rparr>)
         = Some (Inr d2)" and
    d': "d' = d2\<lparr>tagTable := filter (\<lambda>row. snd row \<noteq> p) (tagTable d2),
                 dependencyTable := filter (\<lambda>row. snd (snd row) \<noteq> Some p) (dependencyTable d2)\<rparr>"
    by blast
  have del: "\<forall>x d d'. deleteTriggered resetRec x d = Some (Inr d') \<longrightarrow> R d d'"
    using deleteTriggered_rel[where R=R, OF rf tr rec delete] by blast
  have 1: "R d d1" using forEach_rel[where R=R, OF rf tr _ d1] rec by blast
  have 2: "R d1 (d1\<lparr>actionsByTrigger := filter (\<lambda>row. fst row \<noteq> p) (actionsByTrigger d1)\<rparr>)"
    using eraseTriggered .
  have 3: "R (d1\<lparr>actionsByTrigger := filter (\<lambda>row. fst row \<noteq> p) (actionsByTrigger d1)\<rparr>) d2"
    using forEach_rel[where R=R, OF rf tr _ d2] del by blast
  have 4: "R d2 d'" unfolding d' using eraseProvision .
  show ?thesis using 1 2 3 4 trans by blast
qed

lemma reset_parts:
  assumes "reset (Suc fuel) this d = Some (Inr d')" and "actionHeap d this = Some self"
    and "state self \<noteq> PENDING"
  shows "\<exists>d1 d2. requeue this self d = Inr d1
     \<and> forEach (resetProvision (reset fuel) this) (provisions self) d1 = Some (Inr d2)
     \<and> forget this d2 = Some (Inr d')"
  using assms by (auto simp: andThen_Inr split: sum.splits)

lemma reset_live:
  "reset fuel this d = Some (Inr d') \<Longrightarrow> \<exists>self. actionHeap d this = Some self"
  by (cases fuel) (auto split: option.splits)

lemma requeue_cases:
  assumes "requeue this self d = Inr d1"
  shows "(isRunning self \<and> this \<in> set (activeActions d)
          \<and> d1 = setAction this
                   (self\<lparr>dashboardTask := setState Dashboard_BLOCKED (dashboardTask self),
                         runningAction := False, asyncCallbackOp := None,
                         isRunning := False, state := PENDING\<rparr>)
                   (d\<lparr>activeActions := remove1 this (activeActions d),
                      pendingActions := pendingActions d @ [this]\<rparr>))
       \<or> (\<not> isRunning self \<and> this \<in> set (completedActionPtrs d)
          \<and> d1 = setAction this (self\<lparr>state := PENDING\<rparr>)
                   (d\<lparr>completedActionPtrs := removeAll this (completedActionPtrs d),
                      pendingActions := pendingActions d @ [this]\<rparr>))"
  using assms by (auto simp: requeue_def split: if_splits)

lemma forget_cases:
  assumes "forget this d = Some (Inr d')"
  shows "\<exists>self. actionHeap d this = Some self
     \<and> d' = setAction this (self\<lparr>provisions := [], providedTags := [], outputs := []\<rparr>)
                (d\<lparr>dependencyTable := filter (\<lambda>row. fst (snd row) \<noteq> this) (dependencyTable d),
                   provisionHeap := freeProvisions (provisions self) (provisionHeap d)\<rparr>)"
  using assms by (auto simp: forget_def split: option.splits)

lemma set_releaseLast: "set (releaseLast x xs) \<subseteq> set xs"
  unfolding releaseLast_def using set_remove1_subset[of x "rev xs"] by simp

lemma distinct_releaseLast: "distinct xs \<Longrightarrow> distinct (releaseLast x xs) \<and> x \<notin> set (releaseLast x xs)"
  by (simp add: releaseLast_def)

lemma settles_refl: "reflp settles"
  by (auto simp: reflp_def settles_def)

lemma settles_trans: "transp settles"
proof (rule transpI)
  fix a b c assume ab: "settles a b" and bc: "settles b c"
  show "settles a c"
    unfolding settles_def
  proof (intro conjI allI impI)
    show "dom (actionHeap c) \<subseteq> dom (actionHeap a)"
      using ab bc unfolding settles_def by blast
  next
    fix y r r' assume a: "actionHeap a y = Some r" "state r = PENDING" and c: "actionHeap c y = Some r'"
    from c bc obtain rb where rb: "actionHeap b y = Some rb" unfolding settles_def by blast
    from ab a rb have "state rb = PENDING" unfolding settles_def by blast
    with bc rb c show "state r' = PENDING" unfolding settles_def by blast
  qed
qed

lemma requeue_heap:
  assumes "requeue this self d = Inr d1"
  shows "\<exists>r. actionHeap d1 this = Some r \<and> state r = PENDING \<and> \<not> isRunning r
             \<and> provisions r = provisions self"
    and "\<forall>y. y \<noteq> this \<longrightarrow> actionHeap d1 y = actionHeap d y"
  using requeue_cases[OF assms] by (auto simp: setAction_def)

lemma settles_requeue:
  assumes "actionHeap d this = Some self" and "requeue this self d = Inr d1"
  shows "settles d d1"
  unfolding settles_def
proof (intro conjI allI impI)
  show "dom (actionHeap d1) \<subseteq> dom (actionHeap d)"
    using requeue_heap[OF assms(2)] assms(1) by (metis domD domI subsetI)
next
  fix y r r' assume "actionHeap d y = Some r" "state r = PENDING" "actionHeap d1 y = Some r'"
  then show "state r' = PENDING"
    using requeue_heap[OF assms(2)] by (cases "y = this") auto
qed

lemma delete_heap:
  "actionHeap (deleteActionDriver x (d\<lparr>pendingActions := ps\<rparr>)) = (actionHeap d)(x := None)"
  by (simp add: deleteActionDriver_def)

lemma settles_delete:
  "settles d (deleteActionDriver x (d\<lparr>pendingActions := releaseLast x (pendingActions d)\<rparr>))"
  unfolding settles_def delete_heap by (auto split: if_splits)

lemma forget_heap:
  assumes "forget this d = Some (Inr d')"
  shows "\<exists>self. actionHeap d this = Some self
     \<and> actionHeap d' = (actionHeap d)(this \<mapsto> self\<lparr>provisions := [], providedTags := [], outputs := []\<rparr>)"
  using forget_cases[OF assms] by (auto simp: setAction_def)

lemma settles_forget:
  assumes "forget this d = Some (Inr d')"
  shows "settles d d'"
proof -
  from forget_heap[OF assms] obtain self where
    s: "actionHeap d this = Some self"
       "actionHeap d' = (actionHeap d)(this \<mapsto> self\<lparr>provisions := [], providedTags := [], outputs := []\<rparr>)"
    by blast
  show ?thesis unfolding settles_def s(2) using s(1) by auto
qed

lemma settles_erase:
  "settles d (d\<lparr>actionsByTrigger := abt\<rparr>)" "settles d (d\<lparr>tagTable := tt, dependencyTable := dt\<rparr>)"
  by (simp_all add: settles_def)

lemma reset_settles: "reset fuel this d = Some (Inr d') \<Longrightarrow> settles d d'"
  apply (erule reset_rel[where R=settles, OF settles_refl settles_trans, rotated -1])
  subgoal by (blast intro: settles_requeue)
  subgoal by (rule settles_delete)
  subgoal by (rule settles_erase)
  subgoal by (rule settles_erase)
  subgoal by (blast intro: settles_forget)
  done

lemma resetProvision_settles:
  "resetProvision (reset fuel) this p d = Some (Inr d') \<Longrightarrow> settles d d'"
  apply (erule resetProvision_rel[where R=settles and resetRec="reset fuel",
                 OF settles_refl settles_trans, rotated -1])
  subgoal by (blast intro: reset_settles)
  subgoal by (rule settles_delete)
  subgoal by (rule settles_erase)
  subgoal by (rule settles_erase)
  done

lemma reset_makes_pending:
  assumes "reset fuel this d = Some (Inr d')" and "actionHeap d' this = Some r'"
  shows "state r' = PENDING"
proof (cases fuel)
  case 0
  then show ?thesis using assms by simp
next
  case (Suc n)
  from reset_live[OF assms(1)] obtain self where self: "actionHeap d this = Some self" by blast
  show ?thesis
  proof (cases "state self = PENDING")
    case True
    then show ?thesis using assms self Suc by simp
  next
    case False
    from reset_parts[OF assms(1)[unfolded Suc] self False] obtain d1 d2 where
      d1: "requeue this self d = Inr d1" and
      d2: "forEach (resetProvision (reset n) this) (provisions self) d1 = Some (Inr d2)" and
      d3: "forget this d2 = Some (Inr d')" by blast
    have p1: "\<exists>r. actionHeap d1 this = Some r \<and> state r = PENDING"
      using requeue_heap[OF d1] by auto
    have "settles d1 d2"
      using forEach_rel[where R=settles, OF settles_refl settles_trans _ d2] resetProvision_settles
      by blast
    moreover have "settles d2 d'" using settles_forget[OF d3] .
    ultimately have "settles d1 d'" using settles_trans by (blast dest: transpD)
    then show ?thesis using p1 assms(2) by (auto simp: settles_def)
  qed
qed

lemma placed_iff:
  "placed d \<longleftrightarrow>
     distinct (pendingActions d) \<and> distinct (activeActions d)
     \<and> (\<forall>x \<in> set (pendingActions d). \<exists>r. actionHeap d x = Some r \<and> state r = PENDING)
     \<and> (\<forall>x \<in> set (activeActions d). \<exists>r. actionHeap d x = Some r \<and> state r \<noteq> PENDING \<and> isRunning r)
     \<and> (\<forall>x \<in> set (completedActionPtrs d).
           \<exists>r. actionHeap d x = Some r \<and> state r \<noteq> PENDING \<and> \<not> isRunning r)"
  unfolding placed_def by (auto split: option.splits)

lemma placed_requeue:
  assumes self: "actionHeap d this = Some self" and np: "state self \<noteq> PENDING"
    and rq: "requeue this self d = Inr d1" and pl: "placed d"
  shows "placed d1"
proof -
  have notp: "this \<notin> set (pendingActions d)" using pl self np unfolding placed_iff by auto
  from requeue_cases[OF rq] show ?thesis
  proof (elim disjE conjE)
    assume run: "isRunning self" and act: "this \<in> set (activeActions d)"
      and d1: "d1 = setAction this
                   (self\<lparr>dashboardTask := setState Dashboard_BLOCKED (dashboardTask self),
                         runningAction := False, asyncCallbackOp := None,
                         isRunning := False, state := PENDING\<rparr>)
                   (d\<lparr>activeActions := remove1 this (activeActions d),
                      pendingActions := pendingActions d @ [this]\<rparr>)"
    have notc: "this \<notin> set (completedActionPtrs d)" using pl self run unfolding placed_iff by auto
    have nota: "this \<notin> set (remove1 this (activeActions d))" using pl unfolding placed_iff by simp
    show ?thesis
      unfolding placed_iff d1 setAction_def using pl notp notc nota
      unfolding placed_iff
      by (auto dest: notin_set_remove1)
  next
    assume run: "\<not> isRunning self" and cmp: "this \<in> set (completedActionPtrs d)"
      and d1: "d1 = setAction this (self\<lparr>state := PENDING\<rparr>)
                   (d\<lparr>completedActionPtrs := removeAll this (completedActionPtrs d),
                      pendingActions := pendingActions d @ [this]\<rparr>)"
    have nota: "this \<notin> set (activeActions d)" using pl self run unfolding placed_iff by auto
    show ?thesis
      unfolding placed_iff d1 setAction_def using pl notp nota
      unfolding placed_iff
      by auto
  qed
qed

lemma placed_delete:
  assumes x: "x \<in> set (pendingActions d)" and pl: "placed d"
  shows "placed (deleteActionDriver x (d\<lparr>pendingActions := releaseLast x (pendingActions d)\<rparr>))"
proof -
  from pl x obtain r where r: "actionHeap d x = Some r" "state r = PENDING"
    unfolding placed_iff by blast
  have na: "x \<notin> set (activeActions d)" "x \<notin> set (completedActionPtrs d)"
    using pl r unfolding placed_iff by auto
  have dl: "distinct (releaseLast x (pendingActions d))" "x \<notin> set (releaseLast x (pendingActions d))"
    using distinct_releaseLast pl unfolding placed_iff by auto
  have sub: "set (releaseLast x (pendingActions d)) \<subseteq> set (pendingActions d)"
    by (rule set_releaseLast)
  show ?thesis
    unfolding placed_iff deleteActionDriver_def using pl na dl sub
    unfolding placed_iff
    by (auto split: option.splits)
qed

lemma placed_forget:
  assumes "forget this d = Some (Inr d')" and "placed d"
  shows "placed d'"
proof -
  from forget_cases[OF assms(1)] obtain self where
    s: "actionHeap d this = Some self"
       "d' = setAction this (self\<lparr>provisions := [], providedTags := [], outputs := []\<rparr>)
                (d\<lparr>dependencyTable := filter (\<lambda>row. fst (snd row) \<noteq> this) (dependencyTable d),
                   provisionHeap := freeProvisions (provisions self) (provisionHeap d)\<rparr>)"
    by blast
  show ?thesis
    unfolding placed_iff s(2) setAction_def using assms(2) s(1)
    unfolding placed_iff
    by auto
qed

lemma keepsPlaced_refl: "reflp keepsPlaced" by (simp add: reflp_def keepsPlaced_def)

lemma keepsPlaced_trans: "transp keepsPlaced" by (auto simp: transp_def keepsPlaced_def)

lemma keepsPlaced_erase:
  "keepsPlaced d (d\<lparr>actionsByTrigger := abt\<rparr>)"
  "keepsPlaced d (d\<lparr>tagTable := tt, dependencyTable := dt\<rparr>)"
  by (simp_all add: keepsPlaced_def placed_def)

lemma reset_keepsPlaced: "reset fuel this d = Some (Inr d') \<Longrightarrow> keepsPlaced d d'"
  apply (erule reset_rel[where R=keepsPlaced, OF keepsPlaced_refl keepsPlaced_trans, rotated -1])
  subgoal unfolding keepsPlaced_def by (blast intro: placed_requeue)
  subgoal unfolding keepsPlaced_def by (blast intro: placed_delete)
  subgoal by (rule keepsPlaced_erase)
  subgoal by (rule keepsPlaced_erase)
  subgoal unfolding keepsPlaced_def by (blast intro: placed_forget)
  done

lemma reset_placed: "reset fuel this d = Some (Inr d') \<Longrightarrow> placed d \<Longrightarrow> placed d'"
  using reset_keepsPlaced unfolding keepsPlaced_def by blast

lemma shrinks_refl: "reflp shrinks" by (simp add: reflp_def shrinks_def)

lemma shrinks_trans: "transp shrinks"
  unfolding transp_def shrinks_def by (intro allI impI conjI; (elim conjE)?) (auto | linarith)+

lemma length_removeAll_le: "length (removeAll x xs) \<le> length xs"
  by (induction xs) (auto simp: le_SucI)

lemma shrinks_requeue:
  assumes rq: "requeue this self d = Inr d1"
  shows "shrinks d d1"
  using requeue_cases[OF rq]
proof (elim disjE conjE)
  assume act: "this \<in> set (activeActions d)"
    and d1: "d1 = setAction this
                 (self\<lparr>dashboardTask := setState Dashboard_BLOCKED (dashboardTask self),
                       runningAction := False, asyncCallbackOp := None,
                       isRunning := False, state := PENDING\<rparr>)
                 (d\<lparr>activeActions := remove1 this (activeActions d),
                    pendingActions := pendingActions d @ [this]\<rparr>)"
  show ?thesis
    unfolding shrinks_def d1 setAction_def gone_def using act
    by (auto dest: set_remove1_subset[THEN subsetD] simp: length_remove1)
next
  assume cmp: "this \<in> set (completedActionPtrs d)"
    and d1: "d1 = setAction this (self\<lparr>state := PENDING\<rparr>)
                 (d\<lparr>completedActionPtrs := removeAll this (completedActionPtrs d),
                    pendingActions := pendingActions d @ [this]\<rparr>)"
  show ?thesis
    unfolding shrinks_def d1 setAction_def gone_def using cmp
    by (auto simp: length_removeAll_le)
qed

lemma shrinks_delete:
  "shrinks d (deleteActionDriver x (d\<lparr>pendingActions := releaseLast x (pendingActions d)\<rparr>))"
  unfolding shrinks_def deleteActionDriver_def gone_def using set_releaseLast[of x "pendingActions d"]
  by auto

lemma shrinks_erase:
  "shrinks d (d\<lparr>actionsByTrigger := filter P (actionsByTrigger d)\<rparr>)"
  "shrinks d (d\<lparr>tagTable := tt, dependencyTable := dt\<rparr>)"
  by (auto simp: shrinks_def gone_def)

lemma shrinks_forget: "forget this d = Some (Inr d') \<Longrightarrow> shrinks d d'"
  by (drule forget_cases) (auto simp: shrinks_def gone_def setAction_def)

lemma reset_shrinks: "reset fuel this d = Some (Inr d') \<Longrightarrow> shrinks d d'"
  apply (erule reset_rel[where R=shrinks, OF shrinks_refl shrinks_trans, rotated -1])
  subgoal by (blast intro: shrinks_requeue)
  subgoal by (rule shrinks_delete)
  subgoal by (rule shrinks_erase)
  subgoal by (rule shrinks_erase)
  subgoal by (blast intro: shrinks_forget)
  done

lemma forEach_inv:
  assumes step: "\<forall>x \<in> set xs. \<forall>d d'. I d \<longrightarrow> f x d = Some (Inr d') \<longrightarrow> I d'"
    and init: "I d" and run: "forEach f xs d = Some (Inr d')"
  shows "I d'"
proof -
  have "reflp (\<lambda>a b. I a \<longrightarrow> I b)" "transp (\<lambda>a b. I a \<longrightarrow> I b)"
    by (auto simp: reflp_def transp_def)
  from forEach_rel[where R="\<lambda>a b. I a \<longrightarrow> I b", OF this _ run] step init show ?thesis by blast
qed

lemma forEach_terminates:
  assumes live: "\<forall>x \<in> set xs. \<forall>d. I d \<longrightarrow> f x d \<noteq> None"
    and step: "\<forall>x \<in> set xs. \<forall>d d'. I d \<longrightarrow> f x d = Some (Inr d') \<longrightarrow> I d'"
    and init: "I d"
  shows "forEach f xs d \<noteq> None"
  using assms
proof (induction xs arbitrary: d)
  case Nil
  show ?case by simp
next
  case (Cons x xs)
  have live': "\<forall>y \<in> set xs. \<forall>d. I d \<longrightarrow> f y d \<noteq> None"
    and step': "\<forall>y \<in> set xs. \<forall>d d'. I d \<longrightarrow> f y d = Some (Inr d') \<longrightarrow> I d'"
    using Cons.prems(1,2) by (meson list.set_intros(2))+
  have fx: "f x d \<noteq> None" using Cons.prems(1,3) by (meson list.set_intros(1))
  then obtain r where r: "f x d = Some r" by blast
  show ?case
  proof (cases r)
    case (Inl e)
    then show ?thesis using r by (simp add: andThen_def)
  next
    case (Inr d1)
    have "I d1" using Cons.prems(2,3) r Inr by (meson list.set_intros(1))
    then have "forEach f xs d1 \<noteq> None" using Cons.IH[OF live' step'] by blast
    then show ?thesis using r Inr by (simp add: andThen_def)
  qed
qed

lemma shrinks_unsettled: "shrinks d d' \<Longrightarrow> unsettled d' \<le> unsettled d"
  by (simp add: shrinks_def unsettled_def)

lemma length_removeAll_less: "x \<in> set xs \<Longrightarrow> length (removeAll x xs) < length xs"
  by (induction xs) (auto simp: less_Suc_eq_le length_removeAll_le)

lemma requeue_unsettled:
  assumes "requeue this self d = Inr d1"
  shows "unsettled d1 < unsettled d"
  using requeue_cases[OF assms]
proof (elim disjE conjE)
  assume act: "this \<in> set (activeActions d)"
    and d1: "d1 = setAction this
                 (self\<lparr>dashboardTask := setState Dashboard_BLOCKED (dashboardTask self),
                       runningAction := False, asyncCallbackOp := None,
                       isRunning := False, state := PENDING\<rparr>)
                 (d\<lparr>activeActions := remove1 this (activeActions d),
                    pendingActions := pendingActions d @ [this]\<rparr>)"
  have "length (activeActions d) > 0" using act by (cases "activeActions d") auto
  then show ?thesis unfolding d1 unsettled_def setAction_def using act
    by (simp add: length_remove1)
next
  assume cmp: "this \<in> set (completedActionPtrs d)"
    and d1: "d1 = setAction this (self\<lparr>state := PENDING\<rparr>)
                 (d\<lparr>completedActionPtrs := removeAll this (completedActionPtrs d),
                    pendingActions := pendingActions d @ [this]\<rparr>)"
  show ?thesis unfolding d1 unsettled_def setAction_def using length_removeAll_less[OF cmp]
    by simp
qed

lemma resetProvision_shrinks:
  "resetProvision (reset fuel) this p d = Some (Inr d') \<Longrightarrow> shrinks d d'"
  apply (erule resetProvision_rel[where R=shrinks and resetRec="reset fuel",
                 OF shrinks_refl shrinks_trans, rotated -1])
  subgoal by (blast intro: reset_shrinks)
  subgoal by (rule shrinks_delete)
  subgoal by (rule shrinks_erase)
  subgoal by (rule shrinks_erase)
  done

lemma deleteTriggered_shrinks:
  "deleteTriggered (reset fuel) x d = Some (Inr d') \<Longrightarrow> shrinks d d'"
  apply (erule deleteTriggered_rel[where R=shrinks and resetRec="reset fuel",
                 OF shrinks_refl shrinks_trans, rotated -1])
  subgoal by (blast intro: reset_shrinks)
  subgoal by (rule shrinks_delete)
  done

lemma forget_terminates: "forget this d \<noteq> None"
  by (simp add: forget_def split: option.splits)

lemma deleteTriggered_terminates:
  "resetRec x d \<noteq> None \<Longrightarrow> deleteTriggered resetRec x d \<noteq> None"
  by (cases "resetRec x d") (auto simp: deleteTriggered_def andThen_def split: sum.splits)

lemma reset_unsettled:
  "reset fuel x s = Some (Inr s') \<Longrightarrow> unsettled s < n \<Longrightarrow> unsettled s' < n"
  using shrinks_unsettled[OF reset_shrinks] by fastforce

lemma deleteTriggered_unsettled:
  "deleteTriggered (reset fuel) x s = Some (Inr s') \<Longrightarrow> unsettled s < n \<Longrightarrow> unsettled s' < n"
  using shrinks_unsettled[OF deleteTriggered_shrinks] by fastforce

lemma resetProvision_unsettled:
  "resetProvision (reset fuel) this p s = Some (Inr s') \<Longrightarrow> unsettled s < n \<Longrightarrow> unsettled s' < n"
  using shrinks_unsettled[OF resetProvision_shrinks] by fastforce

lemma resetProvision_terminates:
  assumes rec: "\<forall>x s. unsettled s < n \<longrightarrow> reset fuel x s \<noteq> None"
    and s: "unsettled s < n"
  shows "resetProvision (reset fuel) this p s \<noteq> None"
proof (cases "actionHeap s this")
  case None
  then show ?thesis by (simp add: resetProvision_def)
next
  case (Some a)
  let ?I = "\<lambda>s. unsettled s < n"
  let ?deps = "forEach (reset fuel) (searchProvision (dependencyTable s) p) s"
  have recI: "\<forall>x \<in> set xs. \<forall>s s'. ?I s \<longrightarrow> reset fuel x s = Some (Inr s') \<longrightarrow> ?I s'" for xs
    using reset_unsettled by blast
  have del: "\<forall>x \<in> set xs. \<forall>s. ?I s \<longrightarrow> deleteTriggered (reset fuel) x s \<noteq> None" for xs
    using rec deleteTriggered_terminates by blast
  have delI: "\<forall>x \<in> set xs. \<forall>s s'. ?I s \<longrightarrow> deleteTriggered (reset fuel) x s = Some (Inr s') \<longrightarrow> ?I s'"
    for xs using deleteTriggered_unsettled by blast
  have t1: "?deps \<noteq> None"
    by (rule forEach_terminates[where I="?I", OF _ recI s]) (use rec in blast)
  then obtain r where r: "?deps = Some r" by blast
  show ?thesis
  proof (cases r)
    case (Inl e)
    then show ?thesis using r Some by (simp add: resetProvision_def andThen_def)
  next
    case (Inr s1)
    have "?I s1" by (rule forEach_inv[where I="?I", OF recI s]) (use r Inr in simp)
    then have I2: "?I (s1\<lparr>actionsByTrigger :=
                      filter (\<lambda>row. fst row \<noteq> p) (actionsByTrigger s1)\<rparr>)"
      by (simp add: unsettled_def)
    have "forEach (deleteTriggered (reset fuel)) (equal_range (actionsByTrigger s1) p)
                 (s1\<lparr>actionsByTrigger :=
                      filter (\<lambda>row. fst row \<noteq> p) (actionsByTrigger s1)\<rparr>) \<noteq> None"
      by (rule forEach_terminates[where I="?I", OF del delI I2])
    then obtain r2 where r2: "forEach (deleteTriggered (reset fuel)) (equal_range (actionsByTrigger s1) p)
                 (s1\<lparr>actionsByTrigger :=
                      filter (\<lambda>row. fst row \<noteq> p) (actionsByTrigger s1)\<rparr>) = Some r2" by blast
    show ?thesis using r Inr Some r2
      by (cases r2) (simp_all add: resetProvision_def andThen_def)
  qed
qed

lemma reset_terminates: "unsettled d < fuel \<Longrightarrow> reset fuel this d \<noteq> None"
proof (induction fuel arbitrary: this d)
  case 0
  then show ?case by simp
next
  case (Suc fuel)
  show ?case
  proof (cases "actionHeap d this")
    case None
    then show ?thesis by simp
  next
    case (Some self)
    show ?thesis
    proof (cases "state self = PENDING")
      case True
      then show ?thesis using Some by simp
    next
      case False
      show ?thesis
      proof (cases "requeue this self d")
        case (Inl e)
        then show ?thesis using Some False by simp
      next
        case (Inr d1)
        let ?I = "\<lambda>s. unsettled s < fuel"
        have I1: "?I d1" using requeue_unsettled[OF Inr] Suc.prems by simp
        have rec: "\<forall>x s. ?I s \<longrightarrow> reset fuel x s \<noteq> None" using Suc.IH by blast
        have prov: "\<forall>p \<in> set (provisions self). \<forall>s. ?I s \<longrightarrow> resetProvision (reset fuel) this p s \<noteq> None"
          using resetProvision_terminates[OF rec] by blast
        have provI: "\<forall>p \<in> set (provisions self). \<forall>s s'. ?I s \<longrightarrow>
                       resetProvision (reset fuel) this p s = Some (Inr s') \<longrightarrow> ?I s'"
          using resetProvision_unsettled by blast
        have "forEach (resetProvision (reset fuel) this) (provisions self) d1 \<noteq> None"
          by (rule forEach_terminates[where I="?I", OF prov provI I1])
        then obtain r where r: "forEach (resetProvision (reset fuel) this) (provisions self) d1 = Some r"
          by blast
        show ?thesis using Some False Inr r forget_terminates
          by (cases r) (simp_all add: andThen_def)
      qed
    qed
  qed
qed

lemma shrinks_gone: "shrinks d d' \<Longrightarrow> gone x d \<Longrightarrow> gone x d'"
  by (simp add: shrinks_def)

lemma shrinks_rows: "shrinks d d' \<Longrightarrow> row \<notin> set (actionsByTrigger d) \<Longrightarrow> row \<notin> set (actionsByTrigger d')"
  by (auto simp: shrinks_def)

lemma forEach_shrinks:
  assumes "\<forall>x \<in> set xs. \<forall>d d'. f x d = Some (Inr d') \<longrightarrow> shrinks d d'"
    and "forEach f xs d = Some (Inr d')"
  shows "shrinks d d'"
  using forEach_rel[where R=shrinks, OF shrinks_refl shrinks_trans assms] .

lemma deleteTriggered_placed:
  assumes run: "deleteTriggered (reset fuel) x d = Some (Inr d')" and pl: "placed d"
  shows "placed d' \<and> gone x d'"
proof -
  from run obtain d1 where d1: "reset fuel x d = Some (Inr d1)"
    "d' = (if x \<in> set (pendingActions d1)
           then deleteActionDriver x (d1\<lparr>pendingActions := releaseLast x (pendingActions d1)\<rparr>)
           else d1)"
    by (auto simp: deleteTriggered_def andThen_Inr)
  have p1: "placed d1" using reset_placed[OF d1(1) pl] .
  have pend: "\<forall>r. actionHeap d1 x = Some r \<longrightarrow> state r = PENDING"
    using reset_makes_pending[OF d1(1)] by blast
  have nac: "x \<notin> set (activeActions d1)" "x \<notin> set (completedActionPtrs d1)"
    using p1 pend unfolding placed_iff by auto
  show ?thesis
  proof (cases "x \<in> set (pendingActions d1)")
    case True
    have "x \<notin> set (releaseLast x (pendingActions d1))"
      using distinct_releaseLast p1 unfolding placed_iff by blast
    then have "gone x d'" using d1(2) True nac by (simp add: gone_def deleteActionDriver_def)
    moreover have "placed d'" using d1(2) True placed_delete[OF True p1] by simp
    ultimately show ?thesis by blast
  next
    case False
    then show ?thesis using d1(2) p1 nac by (simp add: gone_def)
  qed
qed

lemma forEach_deleteTriggered_gone:
  assumes "forEach (deleteTriggered (reset fuel)) xs d = Some (Inr d')" and "placed d"
  shows "placed d' \<and> (\<forall>x \<in> set xs. gone x d')"
  using assms
proof (induction xs arbitrary: d)
  case Nil
  then show ?case by simp
next
  case (Cons x xs)
  from Cons.prems(1) obtain d1 where d1: "deleteTriggered (reset fuel) x d = Some (Inr d1)"
    "forEach (deleteTriggered (reset fuel)) xs d1 = Some (Inr d')"
    by (auto simp: andThen_Inr)
  from deleteTriggered_placed[OF d1(1) Cons.prems(2)] have p1: "placed d1" "gone x d1" by auto
  from Cons.IH[OF d1(2) p1(1)] have ih: "placed d'" "\<forall>y \<in> set xs. gone y d'" by auto
  have "shrinks d1 d'" using forEach_shrinks[OF _ d1(2)] deleteTriggered_shrinks by blast
  then have "gone x d'" using p1(2) shrinks_gone by blast
  then show ?case using ih by simp
qed

lemma shrinks_owed_same:
  "shrinks d d' \<Longrightarrow> actionsByTrigger d' = actionsByTrigger d \<Longrightarrow> owed P B d \<Longrightarrow> owed P B d'"
  by (auto simp: owed_def shrinks_def)

lemma resetProvision_owed:
  assumes rec: "\<forall>x s s'. placed s \<and> owed P B s \<longrightarrow> reset fuel x s = Some (Inr s') \<longrightarrow> owed P B s'"
    and run: "resetProvision (reset fuel) this p d = Some (Inr d')"
    and pl: "placed d" and ow: "owed P B d"
  shows "placed d' \<and> owed P B d'"
proof -
  let ?J = "\<lambda>s. placed s \<and> owed P B s"
  from resetProvision_parts[OF run] obtain d1 d2 where
    d1: "forEach (reset fuel) (searchProvision (dependencyTable d) p) d = Some (Inr d1)" and
    d2: "forEach (deleteTriggered (reset fuel)) (equal_range (actionsByTrigger d1) p)
           (d1\<lparr>actionsByTrigger := filter (\<lambda>row. fst row \<noteq> p) (actionsByTrigger d1)\<rparr>)
         = Some (Inr d2)" and
    d': "d' = d2\<lparr>tagTable := filter (\<lambda>row. snd row \<noteq> p) (tagTable d2),
                 dependencyTable := filter (\<lambda>row. snd (snd row) \<noteq> Some p) (dependencyTable d2)\<rparr>"
    by blast
  have recJ: "\<forall>x \<in> set xs. \<forall>s s'. ?J s \<longrightarrow> reset fuel x s = Some (Inr s') \<longrightarrow> ?J s'" for xs
    using rec reset_placed by blast
  have J1: "?J d1" by (rule forEach_inv[where I="?J", OF recJ _ d1]) (use pl ow in simp)
  let ?e = "d1\<lparr>actionsByTrigger := filter (\<lambda>row. fst row \<noteq> p) (actionsByTrigger d1)\<rparr>"
  have ple: "placed ?e" using J1 by (simp add: placed_def)
  have sh: "shrinks ?e d2" using forEach_shrinks[OF _ d2] deleteTriggered_shrinks by blast
  from forEach_deleteTriggered_gone[OF d2 ple]
  have p2: "placed d2" and g2: "\<forall>x \<in> set (equal_range (actionsByTrigger d1) p). gone x d2" by auto
  have o2: "owed P B d2"
  proof (cases "gone B d1")
    case True
    then have "gone B ?e" by (simp add: gone_def)
    then show ?thesis using sh shrinks_gone by (auto simp: owed_def)
  next
    case False
    then have row: "(P, B) \<in> set (actionsByTrigger d1)" using J1 by (simp add: owed_def)
    show ?thesis
    proof (cases "p = P")
      case True
      then have "B \<in> set (equal_range (actionsByTrigger d1) p)"
        using row by (force simp: equal_range_def)
      then show ?thesis using g2 by (simp add: owed_def)
    next
      case False
      let ?K = "\<lambda>s. placed s \<and> (P, B) \<in> set (actionsByTrigger s)"
      have "\<forall>x \<in> set (equal_range (actionsByTrigger d1) p). \<forall>s s'. ?J s \<longrightarrow>
              deleteTriggered (reset fuel) x s = Some (Inr s') \<longrightarrow> ?J s'"
      proof (intro ballI allI impI)
        fix x s s' assume J: "?J s" and dt: "deleteTriggered (reset fuel) x s = Some (Inr s')"
        from dt obtain s1 where s1: "reset fuel x s = Some (Inr s1)"
          "s' = (if x \<in> set (pendingActions s1)
                 then deleteActionDriver x (s1\<lparr>pendingActions := releaseLast x (pendingActions s1)\<rparr>)
                 else s1)"
          by (auto simp: deleteTriggered_def andThen_Inr)
        have o1: "owed P B s1" using rec J s1(1) by blast
        have "owed P B s'"
          using o1 s1(2) shrinks_gone[where x=B, OF shrinks_delete[where d=s1 and x=x]]
          by (auto simp: owed_def deleteActionDriver_def)
        moreover have "placed s'" using deleteTriggered_placed[OF dt] J by blast
        ultimately show "?J s'" by blast
      qed
      moreover have "?J ?e" using ple row False by (simp add: owed_def)
      ultimately have "?J d2" using forEach_inv[where I="?J", OF _ _ d2] by blast
      then show ?thesis by blast
    qed
  qed
  show ?thesis unfolding d' using p2 o2 by (simp add: placed_def owed_def gone_def)
qed

lemma reset_owed:
  "placed d \<Longrightarrow> owed P B d \<Longrightarrow> reset fuel this d = Some (Inr d') \<Longrightarrow> owed P B d'"
proof (induction fuel arbitrary: this d d')
  case 0
  then show ?case by simp
next
  case (Suc fuel)
  from reset_live[OF Suc.prems(3)] obtain self where self: "actionHeap d this = Some self" by blast
  show ?case
  proof (cases "state self = PENDING")
    case True
    then show ?thesis using Suc.prems self by simp
  next
    case False
    from reset_parts[OF Suc.prems(3) self False] obtain d1 d2 where
      d1: "requeue this self d = Inr d1" and
      d2: "forEach (resetProvision (reset fuel) this) (provisions self) d1 = Some (Inr d2)" and
      d3: "forget this d2 = Some (Inr d')" by blast
    let ?J = "\<lambda>s. placed s \<and> owed P B s"
    have abt1: "actionsByTrigger d1 = actionsByTrigger d"
      using requeue_cases[OF d1] by (auto simp: setAction_def)
    have J1: "?J d1"
      using placed_requeue[OF self False d1 Suc.prems(1)]
        shrinks_owed_same[OF shrinks_requeue[OF d1] abt1 Suc.prems(2)] by blast
    have rec: "\<forall>x s s'. placed s \<and> owed P B s \<longrightarrow> reset fuel x s = Some (Inr s') \<longrightarrow> owed P B s'"
      using Suc.IH by blast
    have "\<forall>p \<in> set (provisions self). \<forall>s s'. ?J s \<longrightarrow>
            resetProvision (reset fuel) this p s = Some (Inr s') \<longrightarrow> ?J s'"
      using resetProvision_owed[OF rec] by blast
    then have J2: "?J d2" using forEach_inv[where I="?J", OF _ J1 d2] by blast
    have abt3: "actionsByTrigger d' = actionsByTrigger d2"
      using forget_cases[OF d3] by (auto simp: setAction_def)
    show ?thesis using shrinks_owed_same[OF shrinks_forget[OF d3] abt3] J2 by blast
  qed
qed

lemma resetProvision_erases:
  assumes "resetProvision (reset fuel) this p d = Some (Inr d')"
  shows "\<forall>x. (p, x) \<notin> set (actionsByTrigger d')"
proof -
  from resetProvision_parts[OF assms] obtain d1 d2 where
    d2: "forEach (deleteTriggered (reset fuel)) (equal_range (actionsByTrigger d1) p)
           (d1\<lparr>actionsByTrigger := filter (\<lambda>row. fst row \<noteq> p) (actionsByTrigger d1)\<rparr>)
         = Some (Inr d2)" and
    d': "d' = d2\<lparr>tagTable := filter (\<lambda>row. snd row \<noteq> p) (tagTable d2),
                 dependencyTable := filter (\<lambda>row. snd (snd row) \<noteq> Some p) (dependencyTable d2)\<rparr>"
    by blast
  let ?e = "d1\<lparr>actionsByTrigger := filter (\<lambda>row. fst row \<noteq> p) (actionsByTrigger d1)\<rparr>"
  have sh: "shrinks ?e d2" using forEach_shrinks[OF _ d2] deleteTriggered_shrinks by blast
  have "\<forall>x. (p, x) \<notin> set (actionsByTrigger ?e)" by auto
  then have "\<forall>x. (p, x) \<notin> set (actionsByTrigger d2)" using shrinks_rows[OF sh] by blast
  then show ?thesis unfolding d' by simp
qed

lemma forEach_resetProvision_erases:
  assumes "forEach (resetProvision (reset fuel) this) ps d = Some (Inr d')" and "P \<in> set ps"
  shows "\<forall>x. (P, x) \<notin> set (actionsByTrigger d')"
  using assms
proof (induction ps arbitrary: d)
  case Nil
  then show ?case by simp
next
  case (Cons p ps)
  from Cons.prems(1) obtain d1 where d1: "resetProvision (reset fuel) this p d = Some (Inr d1)"
    "forEach (resetProvision (reset fuel) this) ps d1 = Some (Inr d')"
    by (auto simp: andThen_Inr)
  show ?case
  proof (cases "P \<in> set ps")
    case True
    then show ?thesis using Cons.IH[OF d1(2)] by blast
  next
    case False
    then have "p = P" using Cons.prems(2) by simp
    then have "\<forall>x. (P, x) \<notin> set (actionsByTrigger d1)" using resetProvision_erases[OF d1(1)] by simp
    moreover have "shrinks d1 d'" using forEach_shrinks[OF _ d1(2)] resetProvision_shrinks by blast
    ultimately show ?thesis using shrinks_rows by blast
  qed
qed

text \<open>
  On the runs of \<open>reset()\<close> that return, the actions that a provision of the reset action
  triggered are removed. Let the queues be consistent (\<open>placed\<close>), let the action \<open>A\<close> not
  be PENDING, let \<open>P\<close> be one of its provisions and \<open>B\<close> an action recorded in
  \<open>actionsByTrigger\<close> under \<open>P\<close>. Then \<open>A.reset()\<close> ends (with fuel above the size of the
  active and completed sets), and when it returns \<open>B\<close> is in none of the pending queue, the
  active set and the completed set, and \<open>actionsByTrigger\<close> has no entry keyed on \<open>P\<close>.
\<close>

lemma reset_removes_triggered:
  assumes pl: "placed d" and self: "actionHeap d A = Some self" and np: "state self \<noteq> PENDING"
    and P: "P \<in> set (provisions self)" and row: "(P, B) \<in> set (actionsByTrigger d)"
  shows "(unsettled d < fuel \<longrightarrow> reset fuel A d \<noteq> None)
       \<and> (\<forall>d'. reset fuel A d = Some (Inr d') \<longrightarrow>
             gone B d' \<and> (\<forall>x. (P, x) \<notin> set (actionsByTrigger d')))"
proof (intro conjI allI impI)
  assume "unsettled d < fuel"
  then show "reset fuel A d \<noteq> None" by (rule reset_terminates)
next
  fix d' assume run: "reset fuel A d = Some (Inr d')"
  then obtain n where n: "fuel = Suc n" by (cases fuel) auto
  from reset_parts[OF run[unfolded n] self np] obtain d1 d2 where
    d1: "requeue A self d = Inr d1" and
    d2: "forEach (resetProvision (reset n) A) (provisions self) d1 = Some (Inr d2)" and
    d3: "forget A d2 = Some (Inr d')" by blast
  have "\<forall>x. (P, x) \<notin> set (actionsByTrigger d2)"
    using forEach_resetProvision_erases[OF d2 P] .
  then show rows: "(P, x) \<notin> set (actionsByTrigger d')" for x
    using shrinks_rows[OF shrinks_forget[OF d3]] by blast
  have "owed P B d'" using reset_owed[OF pl _ run] row by (simp add: owed_def)
  then show "gone B d'" using rows by (simp add: owed_def)
qed

text \<open>
  C5. \<open>reset()\<close> of a PENDING action returns the driver unchanged. When \<open>reset()\<close> of an
  action has returned and the action still exists, a second \<open>reset()\<close> right after it
  returns the driver unchanged as well: twice is the same as once.
\<close>

theorem reset_idempotent:
  "(\<forall>self. actionHeap d A = Some self \<and> state self = PENDING \<longrightarrow> reset (Suc fuel) A d = Some (Inr d))
   \<and> (\<forall>d'. reset fuel A d = Some (Inr d') \<and> actionHeap d' A \<noteq> None \<longrightarrow>
         reset (Suc fuel') A d' = Some (Inr d'))"
proof (intro conjI allI impI)
  fix self assume "actionHeap d A = Some self \<and> state self = PENDING"
  then show "reset (Suc fuel) A d = Some (Inr d)" by simp
next
  fix d' assume a: "reset fuel A d = Some (Inr d') \<and> actionHeap d' A \<noteq> None"
  then obtain r' where r': "actionHeap d' A = Some r'" by blast
  from reset_makes_pending[OF _ r'] a have "state r' = PENDING" by blast
  then show "reset (Suc fuel') A d' = Some (Inr d')" using r' by simp
qed

lemma cascade_run:
  "\<exists>d'. reset (Suc (Suc 0)) 1 cascadeDriver = Some (Inr d')
      \<and> pendingActions d' = [4, 1, 3] \<and> activeActions d' = [] \<and> completedActionPtrs d' = []
      \<and> actionsByTrigger d' = [] \<and> tagTable d' = [] \<and> dependencyTable d' = []
      \<and> actionHeap d' 2 = None
      \<and> map_option state (actionHeap d' 1) = Some PENDING
      \<and> map_option state (actionHeap d' 3) = Some PENDING"
  by (simp add: cascadeDriver_def newDriver_def exampleAction_def requeue_def resetProvision_def
      searchProvision_def equal_range_def deleteTriggered_def releaseLast_def deleteActionDriver_def
      forget_def andThen_def setAction_def freeProvisions_def)

lemma cascade_placed: "placed cascadeDriver"
  by (simp add: placed_def cascadeDriver_def exampleAction_def)

lemma reset_removes_triggered_example:
  "placed cascadeDriver \<and> (10, 2) \<in> set (actionsByTrigger cascadeDriver)
   \<and> 2 \<in> set (completedActionPtrs cascadeDriver)
   \<and> (\<exists>d'. reset (Suc (Suc 0)) 1 cascadeDriver = Some (Inr d') \<and> gone 2 d'
         \<and> (\<forall>x. (10, x) \<notin> set (actionsByTrigger d')))"
proof -
  let ?self = "(exampleAction DONE False)\<lparr>provisions := [10], providedTags := [[DEFAULT_TAG]]\<rparr>"
  have self: "actionHeap cascadeDriver 1 = Some ?self" by (simp add: cascadeDriver_def)
  have np: "state ?self \<noteq> PENDING" by (simp add: exampleAction_def)
  have P: "10 \<in> set (provisions ?self)" by simp
  have row: "(10, 2) \<in> set (actionsByTrigger cascadeDriver)" by (simp add: cascadeDriver_def)
  have cmp: "2 \<in> set (completedActionPtrs cascadeDriver)" by (simp add: cascadeDriver_def)
  from cascade_run obtain d' where d': "reset (Suc (Suc 0)) 1 cascadeDriver = Some (Inr d')" by blast
  from reset_removes_triggered[OF cascade_placed self np P row, of "Suc (Suc 0)"] d'
  have "gone 2 d' \<and> (\<forall>x. (10, x) \<notin> set (actionsByTrigger d'))" by blast
  then show ?thesis using cascade_placed row cmp d' by blast
qed

theorem reset_idempotent_witness:
  "reset (Suc 0) 4 cascadeDriver = Some (Inr cascadeDriver)
   \<and> (\<exists>d'. reset (Suc (Suc 0)) 1 cascadeDriver = Some (Inr d')
         \<and> reset (Suc 0) 1 d' = Some (Inr d'))"
proof -
  have p4: "actionHeap cascadeDriver 4 = Some (exampleAction PENDING False)
            \<and> state (exampleAction PENDING False) = PENDING"
    by (simp add: cascadeDriver_def exampleAction_def)
  from cascade_run obtain d' where d': "reset (Suc (Suc 0)) 1 cascadeDriver = Some (Inr d')"
    "map_option state (actionHeap d' 1) = Some PENDING" by blast
  then have live: "actionHeap d' 1 \<noteq> None" by auto
  from reset_idempotent[where d=cascadeDriver and A=4 and fuel=0] p4
  have 1: "reset (Suc 0) 4 cascadeDriver = Some (Inr cascadeDriver)" by blast
  from reset_idempotent[where d=cascadeDriver and A=1 and fuel="Suc (Suc 0)" and fuel'=0] d'(1) live
  have 2: "reset (Suc 0) 1 d' = Some (Inr d')" by blast
  show ?thesis using 1 2 d'(1) by blast
qed

lemma placed_pending_live: "placed d \<Longrightarrow> x \<in> set (pendingActions d) \<Longrightarrow> actionHeap d x \<noteq> None"
  unfolding placed_iff by auto

lemma filter_live_all:
  "\<forall>x \<in> set xs. h x \<noteq> None \<Longrightarrow> filter (\<lambda>x. h x \<noteq> None) xs = xs"
  by (induction xs) auto

lemma requeues_refl: "reflp requeues"
proof (rule reflpI)
  fix d show "requeues d d"
    unfolding requeues_def
  proof (intro impI conjI)
    assume pl: "placed d"
    show "placed d" by fact
    show "dom (actionHeap d) \<subseteq> dom (actionHeap d)" by simp
    have "filter (\<lambda>x. actionHeap d x \<noteq> None) (pendingActions d) = pendingActions d"
      using placed_pending_live[OF pl] by (intro filter_live_all) blast
    then show "\<exists>zs. pendingActions d = filter (\<lambda>x. actionHeap d x \<noteq> None) (pendingActions d) @ zs
                 \<and> set zs \<inter> set (pendingActions d) = {}"
      by simp
  qed
qed

lemma requeues_trans: "transp requeues"
proof (rule transpI)
  fix a b c assume ab: "requeues a b" and bc: "requeues b c"
  show "requeues a c"
    unfolding requeues_def
  proof (intro impI)
    assume pa: "placed a"
    from ab pa obtain zs where b: "placed b" "dom (actionHeap b) \<subseteq> dom (actionHeap a)"
      "pendingActions b = filter (\<lambda>x. actionHeap b x \<noteq> None) (pendingActions a) @ zs"
      "set zs \<inter> set (pendingActions a) = {}"
      unfolding requeues_def by blast
    from bc b(1) obtain zs' where c: "placed c" "dom (actionHeap c) \<subseteq> dom (actionHeap b)"
      "pendingActions c = filter (\<lambda>x. actionHeap c x \<noteq> None) (pendingActions b) @ zs'"
      "set zs' \<inter> set (pendingActions b) = {}"
      unfolding requeues_def by blast
    have live: "actionHeap c x \<noteq> None \<Longrightarrow> actionHeap b x \<noteq> None" for x using c(2) by blast
    have f: "filter (\<lambda>x. actionHeap c x \<noteq> None) (filter (\<lambda>x. actionHeap b x \<noteq> None) (pendingActions a))
               = filter (\<lambda>x. actionHeap c x \<noteq> None) (pendingActions a)"
      using live by (auto intro: filter_cong)
    have pc: "pendingActions c = filter (\<lambda>x. actionHeap c x \<noteq> None) (pendingActions a)
                @ (filter (\<lambda>x. actionHeap c x \<noteq> None) zs @ zs')"
      using c(3) b(3) f by simp
    have dis: "set (filter (\<lambda>x. actionHeap c x \<noteq> None) zs @ zs') \<inter> set (pendingActions a) = {}"
    proof -
      have "x \<notin> set (pendingActions a)" if x: "x \<in> set zs'" for x
      proof
        assume xa: "x \<in> set (pendingActions a)"
        have "x \<in> set (pendingActions c)" using x c(3) by simp
        then have "actionHeap c x \<noteq> None" using placed_pending_live[OF c(1)] by blast
        then have "actionHeap b x \<noteq> None" using live by blast
        then have "x \<in> set (pendingActions b)" using xa b(3) by simp
        then show False using x c(4) by blast
      qed
      then show ?thesis using b(4) by auto
    qed
    show "placed c \<and> dom (actionHeap c) \<subseteq> dom (actionHeap a)
        \<and> (\<exists>zs. pendingActions c = filter (\<lambda>x. actionHeap c x \<noteq> None) (pendingActions a) @ zs
                 \<and> set zs \<inter> set (pendingActions a) = {})"
      using c(1) c(2) b(2) pc dis by blast
  qed
qed

lemma requeues_requeue:
  assumes self: "actionHeap d this = Some self" and np: "state self \<noteq> PENDING"
    and rq: "requeue this self d = Inr d1"
  shows "requeues d d1"
  unfolding requeues_def
proof (intro impI conjI)
  assume pl: "placed d"
  show "placed d1" using placed_requeue[OF self np rq pl] .
  show "dom (actionHeap d1) \<subseteq> dom (actionHeap d)"
    using settles_requeue[OF self rq] by (simp add: settles_def)
  have notp: "this \<notin> set (pendingActions d)" using pl self np unfolding placed_iff by auto
  have p1: "pendingActions d1 = pendingActions d @ [this]"
    using requeue_cases[OF rq] by (auto simp: setAction_def)
  have "\<forall>x \<in> set (pendingActions d). actionHeap d1 x \<noteq> None"
    using placed_pending_live[OF pl] requeue_heap(2)[OF rq] notp by metis
  then have "filter (\<lambda>x. actionHeap d1 x \<noteq> None) (pendingActions d) = pendingActions d"
    by (rule filter_live_all)
  then show "\<exists>zs. pendingActions d1 = filter (\<lambda>x. actionHeap d1 x \<noteq> None) (pendingActions d) @ zs
                 \<and> set zs \<inter> set (pendingActions d) = {}"
    using p1 notp by simp
qed

lemma releaseLast_distinct: "distinct xs \<Longrightarrow> releaseLast x xs = filter (\<lambda>y. y \<noteq> x) xs"
proof -
  assume d: "distinct xs"
  have "remove1 x (rev xs) = filter (\<lambda>y. y \<noteq> x) (rev xs)"
    using d by (simp add: distinct_remove1_removeAll removeAll_filter_not_eq) (metis)
  then show ?thesis by (simp add: releaseLast_def rev_filter)
qed

lemma requeues_delete:
  assumes x: "x \<in> set (pendingActions d)"
  shows "requeues d (deleteActionDriver x (d\<lparr>pendingActions := releaseLast x (pendingActions d)\<rparr>))"
    (is "requeues d ?d'")
  unfolding requeues_def
proof (intro impI conjI)
  assume pl: "placed d"
  show "placed ?d'" using placed_delete[OF x pl] .
  show "dom (actionHeap ?d') \<subseteq> dom (actionHeap d)" unfolding delete_heap by auto
  have dist: "distinct (pendingActions d)" using pl unfolding placed_iff by blast
  have "filter (\<lambda>y. actionHeap ?d' y \<noteq> None) (pendingActions d)
          = filter (\<lambda>y. y \<noteq> x) (pendingActions d)"
    unfolding delete_heap using placed_pending_live[OF pl] by (intro filter_cong) auto
  then show "\<exists>zs. pendingActions ?d' = filter (\<lambda>y. actionHeap ?d' y \<noteq> None) (pendingActions d) @ zs
                 \<and> set zs \<inter> set (pendingActions d) = {}"
    using releaseLast_distinct[OF dist] by (simp add: deleteActionDriver_def)
qed

lemma requeues_same:
  assumes "pendingActions d' = pendingActions d" and "placed d \<longrightarrow> placed d'"
    and "dom (actionHeap d') = dom (actionHeap d)"
  shows "requeues d d'"
  unfolding requeues_def
proof (intro impI conjI)
  assume pl: "placed d"
  show "placed d'" using assms(2) pl by blast
  show "dom (actionHeap d') \<subseteq> dom (actionHeap d)" using assms(3) by simp
  have "\<forall>x \<in> set (pendingActions d). actionHeap d' x \<noteq> None"
    using placed_pending_live[OF pl] assms(3) by blast
  then have "filter (\<lambda>x. actionHeap d' x \<noteq> None) (pendingActions d) = pendingActions d"
    by (rule filter_live_all)
  then show "\<exists>zs. pendingActions d' = filter (\<lambda>x. actionHeap d' x \<noteq> None) (pendingActions d) @ zs
                 \<and> set zs \<inter> set (pendingActions d) = {}"
    using assms(1) by simp
qed

lemma requeues_erase:
  "requeues d (d\<lparr>actionsByTrigger := abt\<rparr>)"
  "requeues d (d\<lparr>tagTable := tt, dependencyTable := dt\<rparr>)"
  by (rule requeues_same; simp add: placed_def)+

lemma requeues_forget:
  assumes "forget this d = Some (Inr d')"
  shows "requeues d d'"
proof (rule requeues_same)
  from forget_cases[OF assms] obtain self where
    s: "actionHeap d this = Some self"
       "d' = setAction this (self\<lparr>provisions := [], providedTags := [], outputs := []\<rparr>)
                (d\<lparr>dependencyTable := filter (\<lambda>row. fst (snd row) \<noteq> this) (dependencyTable d),
                   provisionHeap := freeProvisions (provisions self) (provisionHeap d)\<rparr>)"
    by blast
  show "pendingActions d' = pendingActions d" using s(2) by (simp add: setAction_def)
  show "placed d \<longrightarrow> placed d'" using placed_forget[OF assms] by blast
  show "dom (actionHeap d') = dom (actionHeap d)" using s by (auto simp: setAction_def)
qed

lemma reset_requeues: "reset fuel this d = Some (Inr d') \<Longrightarrow> requeues d d'"
  apply (erule reset_rel[where R=requeues, OF requeues_refl requeues_trans, rotated -1])
  subgoal by (blast intro: requeues_requeue)
  subgoal by (blast intro: requeues_delete)
  subgoal by (rule requeues_erase)
  subgoal by (rule requeues_erase)
  subgoal by (blast intro: requeues_forget)
  done

lemma resetProvision_requeues:
  "resetProvision (reset fuel) this p d = Some (Inr d') \<Longrightarrow> requeues d d'"
  apply (erule resetProvision_rel[where R=requeues and resetRec="reset fuel",
                 OF requeues_refl requeues_trans, rotated -1])
  subgoal by (blast intro: reset_requeues)
  subgoal by (blast intro: requeues_delete)
  subgoal by (rule requeues_erase)
  subgoal by (rule requeues_erase)
  done

lemma reset_back:
  assumes pl: "placed d" and self: "actionHeap d A = Some self" and np: "state self \<noteq> PENDING"
    and run: "reset fuel A d = Some (Inr d')" and live: "actionHeap d' A \<noteq> None"
  shows "\<exists>zs. pendingActions d' =
               filter (\<lambda>x. actionHeap d' x \<noteq> None) (pendingActions d) @ A # zs
             \<and> set zs \<inter> set (pendingActions d) = {} \<and> A \<notin> set zs"
proof -
  from run obtain n where n: "fuel = Suc n" by (cases fuel) auto
  from reset_parts[OF run[unfolded n] self np] obtain d1 d2 where
    d1: "requeue A self d = Inr d1" and
    d2: "forEach (resetProvision (reset n) A) (provisions self) d1 = Some (Inr d2)" and
    d3: "forget A d2 = Some (Inr d')" by blast
  have p1: "pendingActions d1 = pendingActions d @ [A]"
    using requeue_cases[OF d1] by (auto simp: setAction_def)
  have pl1: "placed d1" using placed_requeue[OF self np d1 pl] .
  have "requeues d1 d2"
    using forEach_rel[where R=requeues, OF requeues_refl requeues_trans _ d2]
      resetProvision_requeues by blast
  moreover have "requeues d2 d'" using requeues_forget[OF d3] .
  ultimately have "requeues d1 d'" using requeues_trans by (blast dest: transpD)
  with pl1 obtain zs where z: "placed d'"
      "pendingActions d' = filter (\<lambda>x. actionHeap d' x \<noteq> None) (pendingActions d1) @ zs"
      "set zs \<inter> set (pendingActions d1) = {}"
    unfolding requeues_def by blast
  have "pendingActions d' = filter (\<lambda>x. actionHeap d' x \<noteq> None) (pendingActions d) @ A # zs"
    using z(2) p1 live by simp
  moreover have "set zs \<inter> set (pendingActions d) = {}" "A \<notin> set zs" using z(3) p1 by auto
  ultimately show ?thesis by blast
qed

subsection \<open>A reset that does not return\<close>

lemmas run_defs = faultRun_def faultStart_def faultTree_def faultDisk_def startCallbackOf_def
  doneCallbackOf_def findProviderOf_def
  Driver_start_def scanSourceTree_def exampleFactory_def addActionFactory_def newDriver_def
  registerRoot_def registerProvider_def registerTag_def resetDependentActions_def
  fireTriggers_def queueNewAction_def startSomeActions_def startFront_def start_def
  setAction_def andThen_def fileContentHash_def beginTask_def setState_def canonicalName_def
  StartCallback_run_def DoneCallback_run_def returned_def ensureRunning_def provide_def
  passed_def queueDoneCallback_def findProvider_def choosePreferredProvider_def searchTag_def
  equals_def freeProvisions_def

lemma faultRun_result: "faultRun = Some (Inr faultDriver)"
  unfolding faultDriver_def faultAction_def
  by (simp add: run_defs fun_eq_iff)

lemma startCallbackOf_reachable:
  assumes "reachable d" and "startCallbackOf a d = Some (Inr d')"
  shows "reachable d'"
proof -
  from assms(2) obtain self where "actionHeap d a = Some self"
      "asyncCallbackOp self = Some StartCallback" "StartCallback_run a True d = Inr d'"
    by (auto simp: startCallbackOf_def split: option.splits if_splits)
  with assms(1) show ?thesis by (rule reachable.startCallback)
qed

lemma doneCallbackOf_reachable:
  assumes "reachable d" and "doneCallbackOf a d = Some (Inr d')"
  shows "reachable d'"
proof -
  from assms(2) obtain self where "actionHeap d a = Some self"
      "asyncCallbackOp self = Some DoneCallback"
      "DoneCallback_run 0 (\<lambda>a. None) a d = Some (Inr d')"
    by (auto simp: doneCallbackOf_def split: option.splits if_splits)
  with assms(1) show ?thesis by (rule reachable.doneCallback)
qed

lemma findProviderOf_reachable:
  assumes "reachable d" and "findProviderOf a tag d = Some (Inr d')"
  shows "reachable d'"
proof -
  from assms(2) obtain found where "findProvider a tag d = Inr (found, d')"
    by (cases "findProvider a tag d") (auto simp: findProviderOf_def)
  with assms(1) show ?thesis by (rule reachable.called_findProvider)
qed

lemma faultDriver_reachable: "reachable faultDriver"
proof -
  have r0: "reachable faultStart"
    unfolding faultStart_def by (intro reachable.factory reachable.constructed)
  from faultRun_result[unfolded faultRun_def andThen_Inr]
  obtain d1 d2 d3 d4 d5 d6 d7 d8 d9 d10 d11 d12 d13 d14 d15 where
    s1: "Driver_start 0 (\<lambda>a. None) faultTree faultStart = Some (Inr d1)" and
    s2: "startCallbackOf 1 d1 = Some (Inr d2)" and
    s3: "findProviderOf 1 (fromName ''lib'') d2 = Some (Inr d3)" and
    s4: "Some (provide 1 ''tmp/a.o'' [DEFAULT_TAG, fromName ''obj''] d3) = Some (Inr d4)" and
    s5: "Some (passed 1 d4) = Some (Inr d5)" and
    s6: "doneCallbackOf 1 (d5\<lparr>disk := faultDisk [''src/a.cpp'', ''tmp/a.o'']\<rparr>) = Some (Inr d6)" and
    s7: "startCallbackOf 3 d6 = Some (Inr d7)" and
    s8: "findProviderOf 3 (fromName ''obj'') d7 = Some (Inr d8)" and
    s9: "Some (provide 3 ''tmp/a.bin'' [DEFAULT_TAG] d8) = Some (Inr d9)" and
    s10: "Some (passed 3 d9) = Some (Inr d10)" and
    s11: "doneCallbackOf 3 (d10\<lparr>disk := faultDisk [''src/a.cpp'', ''tmp/a.o'', ''tmp/a.bin'']\<rparr>)
            = Some (Inr d11)" and
    s12: "startCallbackOf 5 d11 = Some (Inr d12)" and
    s13: "findProviderOf 5 (fromName ''obj'') d12 = Some (Inr d13)" and
    s14: "Some (provide 5 ''tmp/lib.a'' [fromName ''lib''] d13) = Some (Inr d14)" and
    s15: "Some (passed 5 d14) = Some (Inr d15)" and
    s16: "Some (Inr (d15\<lparr>disk := faultDisk [''src/a.cpp'', ''tmp/a.o'', ''tmp/a.bin'',
                                       ''tmp/lib.a'']\<rparr>)) = Some (Inr faultDriver)"
    by blast
  have r1: "reachable d1" using r0 s1 by (rule reachable.started)
  have r2: "reachable d2" using r1 s2 by (rule startCallbackOf_reachable)
  have r3: "reachable d3" using r2 s3 by (rule findProviderOf_reachable)
  have r4: "reachable d4" using r3 s4 by (auto intro: reachable.called_provide)
  have r5: "reachable d5" using r4 s5 by (auto intro: reachable.called_passed)
  have r6: "reachable d6" using reachable.diskChanged[OF r5] s6 by (rule doneCallbackOf_reachable)
  have r7: "reachable d7" using r6 s7 by (rule startCallbackOf_reachable)
  have r8: "reachable d8" using r7 s8 by (rule findProviderOf_reachable)
  have r9: "reachable d9" using r8 s9 by (auto intro: reachable.called_provide)
  have r10: "reachable d10" using r9 s10 by (auto intro: reachable.called_passed)
  have r11: "reachable d11" using reachable.diskChanged[OF r10] s11 by (rule doneCallbackOf_reachable)
  have r12: "reachable d12" using r11 s12 by (rule startCallbackOf_reachable)
  have r13: "reachable d13" using r12 s13 by (rule findProviderOf_reachable)
  have r14: "reachable d14" using r13 s14 by (auto intro: reachable.called_provide)
  have r15: "reachable d15" using r14 s15 by (auto intro: reachable.called_passed)
  have "d15\<lparr>disk := faultDisk [''src/a.cpp'', ''tmp/a.o'', ''tmp/a.bin'', ''tmp/lib.a'']\<rparr>
          = faultDriver"
    using s16 by simp
  then show ?thesis using reachable.diskChanged[OF r15] by metis
qed

lemma faultDriver_placed: "placed faultDriver"
  by (simp add: placed_def faultDriver_def faultAction_def newDriver_def)

lemmas reset_defs = faultDriver_def faultAction_def newDriver_def requeue_def resetProvision_def
  searchProvision_def equal_range_def deleteTriggered_def releaseLast_def
  deleteActionDriver_def forget_def andThen_def setAction_def freeProvisions_def

lemma faultDriver_reset:
  "reset fuel 1 faultDriver = (if fuel < 3 then None else Some (Inl UseAfterFree))"
proof -
  consider "fuel = 0" | "fuel = Suc 0" | "fuel = Suc (Suc 0)" | n where "fuel = Suc (Suc (Suc n))"
    by (metis not0_implies_Suc)
  then show ?thesis
  proof cases
    case 1 then show ?thesis by simp
  next
    case 2 then show ?thesis by (simp add: reset_defs)
  next
    case 3 then show ?thesis by (simp add: reset_defs)
  next
    case 4 then show ?thesis by (simp add: reset_defs)
  qed
qed

lemmas done_defs = reset_defs DoneCallback_run_def returned_def ensureRunning_def
  registerProvider_def registerTag_def resetDependentActions_def choosePreferredProvider_def
  searchTag_def fileContentHash_def faultDisk_def setState_def beginTask_def

lemma faultDriver_done:
  "DoneCallback_run fuel throws 5 faultDriver = (if fuel < 3 then None else Some (Inl UseAfterFree))"
proof -
  consider "fuel = 0" | "fuel = Suc 0" | "fuel = Suc (Suc 0)" | n where "fuel = Suc (Suc (Suc n))"
    by (metis not0_implies_Suc)
  then show ?thesis
  proof cases
    case 1 then show ?thesis by (simp add: done_defs)
  next
    case 2 then show ?thesis by (simp add: done_defs)
  next
    case 3 then show ?thesis by (simp add: done_defs)
  next
    case 4 then show ?thesis by (simp add: done_defs)
  qed
qed

text \<open>
  C3. In a state that the driver reaches, the reset of an action ends in a use after free
  before it has removed the actions that its provision triggered. \<open>faultDriver\<close> is
  reached by the run \<open>faultRun\<close>, and its queues are consistent. Action 1 is in state PASSED
  and holds provision 2, under which \<open>actionsByTrigger\<close> records the completed action 3.
  \<open>reset()\<close> of action 1 does not remove action 3: the rows of the dependency table name
  actions 3 and 5 as dependents of provision 2; the reset of action 3 deletes action 5,
  which its provision 4 triggered; the loop over the dependents then calls \<open>reset()\<close> on
  the deleted action 5, a use after free. With enough fuel for the three nested resets
  that is the outcome, and with less the model runs out of fuel, so no fuel makes the
  call return. The driver makes this call itself: the done callback of action 5
  registers provision 6 under the name \<open>lib\<close>, which action 1 had looked up, and ends the
  same way.
\<close>

theorem reset_use_after_free:
  "reachable faultDriver \<and> placed faultDriver
   \<and> map_option state (actionHeap faultDriver 1) = Some PASSED
   \<and> map_option provisions (actionHeap faultDriver 1) = Some [2]
   \<and> equal_range (actionsByTrigger faultDriver) 2 = [3]
   \<and> 3 \<in> set (completedActionPtrs faultDriver)
   \<and> searchProvision (dependencyTable faultDriver) 2 = [3, 5]
   \<and> reset fuel 1 faultDriver = (if fuel < 3 then None else Some (Inl UseAfterFree))
   \<and> DoneCallback_run fuel throws 5 faultDriver
       = (if fuel < 3 then None else Some (Inl UseAfterFree))"
proof -
  have "map_option state (actionHeap faultDriver 1) = Some PASSED"
      "map_option provisions (actionHeap faultDriver 1) = Some [2]"
      "equal_range (actionsByTrigger faultDriver) 2 = [3]"
      "3 \<in> set (completedActionPtrs faultDriver)"
      "searchProvision (dependencyTable faultDriver) 2 = [3, 5]"
    by (simp_all add: faultDriver_def faultAction_def equal_range_def searchProvision_def)
  then show ?thesis
    using faultDriver_reachable faultDriver_placed faultDriver_reset faultDriver_done by simp
qed

theorem reset_use_after_free_witness:
  "reset (Suc (Suc (Suc 0))) 1 faultDriver = Some (Inl UseAfterFree)
   \<and> DoneCallback_run (Suc (Suc (Suc 0))) (\<lambda>a. None) 5 faultDriver = Some (Inl UseAfterFree)
   \<and> reset (Suc (Suc 0)) 1 faultDriver = None"
  using reset_use_after_free[of "Suc (Suc (Suc 0))" "\<lambda>a. None"]
    reset_use_after_free[of "Suc (Suc 0)" "\<lambda>a. None"]
  by (simp add: numeral_3_eq_3[symmetric])

subsection \<open>The pending queue\<close>

lemma start_cases:
  assumes "start this thrown d = Inr d'"
  shows "\<exists>self. actionHeap d this = Some self
     \<and> d' = setAction this
              (self\<lparr>state := RUNNING, isRunning := True,
                    dashboardTask := setState Dashboard_RUNNING (dashboardTask self),
                    asyncCallbackOp :=
                      (if thrown = None then Some StartCallback else asyncCallbackOp self)\<rparr>) d"
  using assms by (auto simp: start_def split: option.splits if_splits)

lemma threwException_cases:
  assumes "threwException fuel this t d = Some (Inr d')"
  shows "pendingActions d' = pendingActions d \<and> activeActions d' = remove1 this (activeActions d)
       \<and> maxConcurrentActions d' = maxConcurrentActions d"
  using assms
  by (auto simp: threwException_def returned_def ensureRunning_def setAction_def
      split: option.splits if_splits)

lemma threwException_terminates: "threwException fuel this t d \<noteq> None"
  by (auto simp: threwException_def returned_def ensureRunning_def setAction_def
      split: option.splits if_splits)

lemma startFront_pops:
  assumes "startFront fuel throws d = Some (Inr d')"
  shows "\<exists>ptr rest. pendingActions d = ptr # rest \<and> pendingActions d' = rest
     \<and> maxConcurrentActions d' = maxConcurrentActions d
     \<and> activeActions d' =
         (if throws ptr = None then activeActions d @ [ptr]
          else remove1 ptr (activeActions d @ [ptr]))"
proof (cases "pendingActions d")
  case Nil
  then show ?thesis using assms by (simp add: startFront_def)
next
  case (Cons ptr rest)
  let ?d0 = "d\<lparr>pendingActions := rest, activeActions := activeActions d @ [ptr]\<rparr>"
  from assms Cons obtain d1 where d1: "start ptr (throws ptr) ?d0 = Inr d1"
    by (auto simp: startFront_def split: sum.splits)
  from start_cases[OF d1] have q1: "pendingActions d1 = rest"
      "activeActions d1 = activeActions d @ [ptr]"
      "maxConcurrentActions d1 = maxConcurrentActions d"
    by (auto simp: setAction_def)
  show ?thesis
  proof (cases "throws ptr")
    case None
    then have "d' = d1" using assms Cons d1 by (simp add: startFront_def)
    then show ?thesis using Cons q1 None by simp
  next
    case (Some t)
    then have "threwException fuel ptr t d1 = Some (Inr d')"
      using assms Cons d1 by (simp add: startFront_def)
    from threwException_cases[OF this] show ?thesis using Cons q1 Some by simp
  qed
qed

lemma startFront_terminates: "startFront fuel throws d \<noteq> None"
  using threwException_terminates
  by (auto simp: startFront_def split: list.splits sum.splits option.splits)

lemma startLoop_terminates:
  "length (pendingActions d) \<le> rounds \<Longrightarrow> startLoop fuel throws rounds d \<noteq> None"
proof (induction rounds arbitrary: d)
  case 0
  then show ?case by simp
next
  case (Suc rounds)
  show ?case
  proof (cases "int (length (activeActions d)) < maxConcurrentActions d \<and> pendingActions d \<noteq> []")
    case False
    then show ?thesis by auto
  next
    case True
    show ?thesis
    proof (cases "startFront fuel throws d")
      case None
      then show ?thesis using startFront_terminates by blast
    next
      case (Some r)
      show ?thesis
      proof (cases r)
        case (Inl e)
        then show ?thesis using Some True by (simp add: andThen_def)
      next
        case (Inr d1)
        from startFront_pops[OF Some[unfolded Inr]] Suc.prems
        have "length (pendingActions d1) \<le> rounds" by auto
        then show ?thesis using Suc.IH Some Inr True by (simp add: andThen_def)
      qed
    qed
  qed
qed

lemma startLoop_pops:
  assumes "startLoop fuel throws rounds d = Some (Inr d')"
  shows "\<exists>j \<le> length (pendingActions d).
           pendingActions d' = drop j (pendingActions d)
         \<and> maxConcurrentActions d' = maxConcurrentActions d
         \<and> ((\<forall>x. throws x = None) \<longrightarrow>
               activeActions d' = activeActions d @ take j (pendingActions d))
         \<and> \<not> (int (length (activeActions d')) < maxConcurrentActions d'
                \<and> pendingActions d' \<noteq> [])"
  using assms
proof (induction rounds arbitrary: d)
  case 0
  then have "\<not> (int (length (activeActions d)) < maxConcurrentActions d \<and> pendingActions d \<noteq> [])"
      "d' = d"
    by (simp_all split: if_splits)
  then show ?case by (intro exI[of _ 0]) simp
next
  case (Suc rounds)
  show ?case
  proof (cases "int (length (activeActions d)) < maxConcurrentActions d \<and> pendingActions d \<noteq> []")
    case False
    then have "startLoop fuel throws (Suc rounds) d = Some (Inr d)"
      by (simp only: startLoop.simps if_False)
    then have "d' = d" using Suc.prems by simp
    then show ?thesis using False by (intro exI[of _ 0]) simp
  next
    case True
    then have "andThen (startFront fuel throws d) (startLoop fuel throws rounds) = Some (Inr d')"
      using Suc.prems by (simp only: startLoop.simps if_True simp_thms)
    then obtain d1 where d1: "startFront fuel throws d = Some (Inr d1)"
        "startLoop fuel throws rounds d1 = Some (Inr d')"
      by (auto simp: andThen_Inr)
    from startFront_pops[OF d1(1)] obtain ptr rest where f:
      "pendingActions d = ptr # rest" "pendingActions d1 = rest"
      "maxConcurrentActions d1 = maxConcurrentActions d"
      "activeActions d1 = (if throws ptr = None then activeActions d @ [ptr]
                           else remove1 ptr (activeActions d @ [ptr]))"
      by blast
    from Suc.IH[OF d1(2)] obtain j where j: "j \<le> length rest"
      "pendingActions d' = drop j rest" "maxConcurrentActions d' = maxConcurrentActions d1"
      "(\<forall>x. throws x = None) \<longrightarrow> activeActions d' = activeActions d1 @ take j rest"
      "\<not> (int (length (activeActions d')) < maxConcurrentActions d' \<and> pendingActions d' \<noteq> [])"
      unfolding f(2) by blast
    have a: "Suc j \<le> length (pendingActions d)" using f(1) j(1) by simp
    have b: "pendingActions d' = drop (Suc j) (pendingActions d)" using f(1) j(2) by simp
    have c: "maxConcurrentActions d' = maxConcurrentActions d" using f(3) j(3) by simp
    have e: "(\<forall>x. throws x = None) \<longrightarrow>
               activeActions d' = activeActions d @ take (Suc j) (pendingActions d)"
      using f(1) f(4) j(4) by simp
    show ?thesis
      by (intro exI[of _ "Suc j"] conjI a b c e j(5))
  qed
qed

lemma queueNewAction_cases:
  assumes "queueNewAction a p d = Inr d'"
  shows "pendingActions d' = allocated d # pendingActions d
       \<and> activeActions d' = activeActions d \<and> maxConcurrentActions d' = maxConcurrentActions d
       \<and> actionsByTrigger d' = actionsByTrigger d @ [(p, allocated d)]
       \<and> (\<exists>r. actionHeap d' (allocated d) = Some r \<and> state r = PENDING \<and> \<not> isRunning r)"
  using assms by (auto simp: queueNewAction_def split: option.splits)

text \<open>
  C8. \<open>queueNewAction\<close>, given a provision that exists, puts the new action on the front of
  the pending queue. \<open>reset\<close> of an action that is not PENDING, in a consistent driver, puts
  it on the back: when the reset returns and the action still exists, the queue holds what
  was queued before and still exists, in the old order, then the action, then only actions
  that were not queued before (the ones its cascade reset). \<open>startSomeActions\<close> always
  ends; it takes some number \<open>j\<close> of actions off the front of the queue, which become the
  back of the active set in queue order when starting them throws nothing, and stops only
  when the active set is full or the queue is empty.
\<close>

theorem pending_queue_discipline:
  "(\<forall>pr. provisionHeap d p = Some pr \<longrightarrow>
      (\<exists>d'. queueNewAction a p d = Inr d' \<and> pendingActions d' = allocated d # pendingActions d))
   \<and> (\<forall>self d'. placed d \<and> actionHeap d A = Some self \<and> state self \<noteq> PENDING
         \<and> reset fuel A d = Some (Inr d') \<and> actionHeap d' A \<noteq> None \<longrightarrow>
         (\<exists>zs. pendingActions d' =
                  filter (\<lambda>x. actionHeap d' x \<noteq> None) (pendingActions d) @ A # zs
               \<and> set zs \<inter> set (pendingActions d) = {} \<and> A \<notin> set zs))
   \<and> startSomeActions fuel throws d \<noteq> None
   \<and> (\<forall>d'. startSomeActions fuel throws d = Some (Inr d') \<longrightarrow>
         (\<exists>j \<le> length (pendingActions d).
             pendingActions d' = drop j (pendingActions d)
           \<and> ((\<forall>x. throws x = None) \<longrightarrow>
                 activeActions d' = activeActions d @ take j (pendingActions d))
           \<and> \<not> (int (length (activeActions d')) < maxConcurrentActions d'
                  \<and> pendingActions d' \<noteq> [])))"
proof (intro conjI allI impI)
  fix pr assume "provisionHeap d p = Some pr"
  then show "\<exists>d'. queueNewAction a p d = Inr d' \<and> pendingActions d' = allocated d # pendingActions d"
    by (simp add: queueNewAction_def)
next
  fix self d'
  assume "placed d \<and> actionHeap d A = Some self \<and> state self \<noteq> PENDING
         \<and> reset fuel A d = Some (Inr d') \<and> actionHeap d' A \<noteq> None"
  then show "\<exists>zs. pendingActions d' =
                  filter (\<lambda>x. actionHeap d' x \<noteq> None) (pendingActions d) @ A # zs
               \<and> set zs \<inter> set (pendingActions d) = {} \<and> A \<notin> set zs"
    using reset_back by blast
next
  show "startSomeActions fuel throws d \<noteq> None"
    unfolding startSomeActions_def by (rule startLoop_terminates) simp
next
  fix d' assume "startSomeActions fuel throws d = Some (Inr d')"
  then have "startLoop fuel throws (length (pendingActions d)) d = Some (Inr d')"
    by (simp add: startSomeActions_def)
  from startLoop_pops[OF this] obtain j where j:
    "j \<le> length (pendingActions d)" "pendingActions d' = drop j (pendingActions d)"
    "(\<forall>x. throws x = None) \<longrightarrow> activeActions d' = activeActions d @ take j (pendingActions d)"
    "\<not> (int (length (activeActions d')) < maxConcurrentActions d' \<and> pendingActions d' \<noteq> [])"
    by blast
  show "\<exists>j \<le> length (pendingActions d).
             pendingActions d' = drop j (pendingActions d)
           \<and> ((\<forall>x. throws x = None) \<longrightarrow>
                 activeActions d' = activeActions d @ take j (pendingActions d))
           \<and> \<not> (int (length (activeActions d')) < maxConcurrentActions d'
                  \<and> pendingActions d' \<noteq> [])"
    by (intro exI[of _ j] conjI j)
qed

subsection \<open>The concurrency bound\<close>

lemma calm_refl: "reflp calm" by (simp add: reflp_def calm_def)

lemma calm_trans: "transp calm"
  unfolding transp_def calm_def by (intro allI impI conjI; (elim conjE)?) (auto | linarith)+

lemma calm_transD: "calm a b \<Longrightarrow> calm b c \<Longrightarrow> calm a c"
  using calm_trans by (blast dest: transpD)

lemma calm_same:
  "activeActions d' = activeActions d \<Longrightarrow> maxConcurrentActions d' = maxConcurrentActions d \<Longrightarrow> calm d d'"
  by (simp add: calm_def)

lemma shrinks_calm: "shrinks d d' \<Longrightarrow> calm d d'"
  by (simp add: shrinks_def calm_def)

lemma calm_bounded: "calm d d' \<Longrightarrow> bounded d \<Longrightarrow> bounded d'"
  by (auto simp: calm_def bounded_def)

lemma forEach_calm:
  assumes "\<forall>x \<in> set xs. \<forall>d d'. f x d = Some (Inr d') \<longrightarrow> calm d d'"
    and "forEach f xs d = Some (Inr d')"
  shows "calm d d'"
  using forEach_rel[where R=calm, OF calm_refl calm_trans assms] .

lemma queueNewAction_calm: "queueNewAction a p d = Inr d' \<Longrightarrow> calm d d'"
  using queueNewAction_cases by (blast intro: calm_same)

lemma fireFactories_calm: "fireFactories tag p fs d = Inr d' \<Longrightarrow> calm d d'"
proof (induction fs arbitrary: d)
  case Nil
  then show ?case using calm_refl by (simp add: reflpD)
next
  case (Cons f fs)
  from Cons.prems obtain pr where pr: "provisionHeap d p = Some pr" by (auto split: option.splits)
  show ?case
  proof (cases "tryMakeAction f tag (file' pr)")
    case None
    then show ?thesis using Cons pr by simp
  next
    case (Some a)
    then obtain d1 where d1: "queueNewAction a p d = Inr d1" "fireFactories tag p fs d1 = Inr d'"
      using Cons.prems pr by (auto split: sum.splits)
    show ?thesis using calm_transD[OF queueNewAction_calm[OF d1(1)] Cons.IH[OF d1(2)]] .
  qed
qed

lemma resetDependentActions_calm:
  assumes "resetDependentActions fuel tag d = Some (Inr d')"
  shows "calm d d'"
proof -
  from assms obtain acts where "forEach (reset fuel) acts d = Some (Inr d')"
    by (auto simp: resetDependentActions_def split: sum.splits)
  moreover note this
  moreover have "\<forall>x \<in> set acts. \<forall>d d'. reset fuel x d = Some (Inr d') \<longrightarrow> calm d d'"
    using reset_shrinks shrinks_calm by blast
  ultimately show ?thesis using forEach_calm[where f="reset fuel"] by blast
qed

lemma registerTag_calm:
  assumes "registerTag fuel p tag d = Some (Inr d')"
  shows "calm d d'"
proof -
  from assms obtain d1 where
    d1: "resetDependentActions fuel tag (d\<lparr>tagTable := tagTable d @ [(tag, p)]\<rparr>) = Some (Inr d1)"
    and d2: "fireTriggers tag p d1 = Inr d'"
    by (auto simp: registerTag_def andThen_Inr split: option.splits)
  have "calm d (d\<lparr>tagTable := tagTable d @ [(tag, p)]\<rparr>)" by (simp add: calm_def)
  moreover have "calm (d\<lparr>tagTable := tagTable d @ [(tag, p)]\<rparr>) d1"
    using resetDependentActions_calm[OF d1] .
  moreover have "calm d1 d'" using d2 fireFactories_calm by (simp add: fireTriggers_def)
  ultimately show ?thesis using calm_transD by blast
qed

lemma registerProvider_calm:
  assumes "registerProvider fuel p tags d = Some (Inr d')"
  shows "calm d d'"
proof -
  from assms obtain pr where
    run: "forEach (registerTag fuel p) tags
            (d\<lparr>provisionHeap := (provisionHeap d)(p \<mapsto>
                  pr\<lparr>contentHash := fileContentHash (disk d) (file' pr)\<rparr>)\<rparr>) = Some (Inr d')"
    by (auto simp: registerProvider_def split: option.splits)
  have "calm d (d\<lparr>provisionHeap := (provisionHeap d)(p \<mapsto>
                  pr\<lparr>contentHash := fileContentHash (disk d) (file' pr)\<rparr>)\<rparr>)"
    by (simp add: calm_def)
  moreover have "calm (d\<lparr>provisionHeap := (provisionHeap d)(p \<mapsto>
                  pr\<lparr>contentHash := fileContentHash (disk d) (file' pr)\<rparr>)\<rparr>) d'"
    by (rule forEach_calm[OF _ run]) (use registerTag_calm in blast)
  ultimately show ?thesis using calm_transD by blast
qed

lemma registerProvisions_calm:
  "registerProvisions fuel this i rounds d = Some (Inr d') \<Longrightarrow> calm d d'"
proof (induction rounds arbitrary: i d)
  case 0
  then have "d' = d" by (simp split: option.splits if_splits)
  then show ?case using calm_refl by (simp add: reflpD)
next
  case (Suc rounds)
  from Suc.prems obtain self where self: "actionHeap d this = Some self"
    by (auto split: option.splits)
  show ?case
  proof (cases "i < length (provisions self)")
    case False
    then show ?thesis using Suc.prems self calm_refl by (simp add: reflpD)
  next
    case True
    then obtain d1 where
      d1: "registerProvider fuel (provisions self ! i) (providedTags self ! i) d = Some (Inr d1)"
      and d2: "registerProvisions fuel this (Suc i) rounds d1 = Some (Inr d')"
      using Suc.prems self by (auto simp: andThen_Inr split: if_splits)
    show ?thesis using calm_transD[OF registerProvider_calm[OF d1] Suc.IH[OF d2]] .
  qed
qed

lemma calm_remove1:
  "activeActions d0 = remove1 x (activeActions d) \<Longrightarrow>
   maxConcurrentActions d0 = maxConcurrentActions d \<Longrightarrow> calm d d0"
  unfolding calm_def using set_remove1_subset[of x "activeActions d"]
  by (auto simp: length_remove1)

lemma returned_parts:
  assumes "returned fuel this d = Some (Inr d')" and "actionHeap d this = Some self"
    and "state self \<noteq> FAILED"
  shows "\<exists>kept d1 self1.
     registerProvisions fuel this 0 (length kept)
       (setAction this
          (self\<lparr>runningAction := False, isRunning := False, provisions := kept,
                dashboardTask :=
                  setState (if state self = PASSED then Dashboard_PASSED else Dashboard_DONE)
                    (dashboardTask self)\<rparr>)
          (d\<lparr>activeActions := remove1 this (activeActions d),
             completedActionPtrs :=
               (if this \<in> set (completedActionPtrs d) then completedActionPtrs d
                else completedActionPtrs d @ [this])\<rparr>)) = Some (Inr d1)
     \<and> actionHeap d1 this = Some self1
     \<and> d' = setAction this (self1\<lparr>providedTags := []\<rparr>)
              (d1\<lparr>provisionHeap :=
                    freeProvisions (filter (\<lambda>p. p \<notin> set kept) (provisions self))
                      (provisionHeap d1)\<rparr>)"
  using assms
  by (auto simp: returned_def andThen_Inr split: sum.splits option.splits if_splits)

lemma returned_calm:
  assumes "returned fuel this d = Some (Inr d')"
  shows "calm d d'"
proof -
  from assms obtain self where self: "actionHeap d this = Some self" "isRunning self"
      "this \<in> set (activeActions d)"
    by (auto simp: returned_def ensureRunning_def split: option.splits if_splits)
  show ?thesis
  proof (cases "state self = FAILED")
    case True
    then have "activeActions d' = remove1 this (activeActions d)"
        "maxConcurrentActions d' = maxConcurrentActions d"
      using assms self by (auto simp: returned_def ensureRunning_def setAction_def)
    then show ?thesis by (rule calm_remove1)
  next
    case False
    from returned_parts[OF assms self(1) False] obtain kept d1 self1 where
      d1: "registerProvisions fuel this 0 (length kept)
       (setAction this
          (self\<lparr>runningAction := False, isRunning := False, provisions := kept,
                dashboardTask :=
                  setState (if state self = PASSED then Dashboard_PASSED else Dashboard_DONE)
                    (dashboardTask self)\<rparr>)
          (d\<lparr>activeActions := remove1 this (activeActions d),
             completedActionPtrs :=
               (if this \<in> set (completedActionPtrs d) then completedActionPtrs d
                else completedActionPtrs d @ [this])\<rparr>)) = Some (Inr d1)" and
      d': "d' = setAction this (self1\<lparr>providedTags := []\<rparr>)
              (d1\<lparr>provisionHeap :=
                    freeProvisions (filter (\<lambda>p. p \<notin> set kept) (provisions self))
                      (provisionHeap d1)\<rparr>)"
      by blast
    have "calm d (setAction this
          (self\<lparr>runningAction := False, isRunning := False, provisions := kept,
                dashboardTask :=
                  setState (if state self = PASSED then Dashboard_PASSED else Dashboard_DONE)
                    (dashboardTask self)\<rparr>)
          (d\<lparr>activeActions := remove1 this (activeActions d),
             completedActionPtrs :=
               (if this \<in> set (completedActionPtrs d) then completedActionPtrs d
                else completedActionPtrs d @ [this])\<rparr>))"
      by (rule calm_remove1) (simp_all add: setAction_def)
    moreover note registerProvisions_calm[OF d1]
    moreover have "calm d1 d'" unfolding d' by (rule calm_same) (simp_all add: setAction_def)
    ultimately show ?thesis using calm_transD by blast
  qed
qed

lemma threwException_calm:
  assumes "threwException fuel this t d = Some (Inr d')"
  shows "calm d d'"
  using threwException_cases[OF assms] by (auto intro: calm_remove1)

lemma registerRoot_calm:
  assumes "registerRoot fuel f d = Some (Inr d')"
  shows "calm d d'"
proof -
  let ?d0 = "d\<lparr>provisionHeap :=
                 (provisionHeap d)(allocated d \<mapsto> \<lparr>file' = f, contentHash = NullHash\<rparr>),
               allocated := Suc (allocated d)\<rparr>"
  from assms obtain d1 where
    d1: "registerProvider fuel (allocated d) [DEFAULT_TAG] ?d0 = Some (Inr d1)" and
    d': "d' = d1\<lparr>rootProvisions := rootProvisions d1 @ [allocated d]\<rparr>"
    by (auto simp: registerRoot_def andThen_Inr)
  have "calm d ?d0" by (simp add: calm_def)
  moreover have "calm ?d0 d1" using registerProvider_calm[OF d1] .
  moreover have "calm d1 d'" unfolding d' by (simp add: calm_def)
  ultimately show ?thesis using calm_transD by blast
qed

lemma scanLoop_calm: "scanLoop fuel fileQueue d = Some (Inr d') \<Longrightarrow> calm d d'"
proof (induction fuel fileQueue d rule: scanLoop.induct)
  case (1 fuel d)
  then show ?case using calm_refl by (simp add: reflpD)
next
  case (2 fuel name entries fileQueue d)
  then show ?case by simp
next
  case (3 fuel current fileQueue d)
  from "3.prems" obtain d1 where d1: "registerRoot fuel current d = Some (Inr d1)"
      "scanLoop fuel fileQueue d1 = Some (Inr d')"
    by (auto split: option.splits sum.splits)
  show ?case using calm_transD[OF registerRoot_calm[OF d1(1)] "3.IH"[OF d1(1) refl d1(2)]] .
qed

lemma startLoop_bounded:
  "startLoop fuel throws rounds d = Some (Inr d') \<Longrightarrow> bounded d \<Longrightarrow> bounded d'"
proof (induction rounds arbitrary: d)
  case 0
  then have "d' = d" by (simp split: if_splits)
  then show ?case using 0 by simp
next
  case (Suc rounds)
  show ?case
  proof (cases "int (length (activeActions d)) < maxConcurrentActions d \<and> pendingActions d \<noteq> []")
    case False
    then have "startLoop fuel throws (Suc rounds) d = Some (Inr d)"
      by (simp only: startLoop.simps if_False)
    then show ?thesis using Suc.prems by simp
  next
    case True
    then have "andThen (startFront fuel throws d) (startLoop fuel throws rounds) = Some (Inr d')"
      using Suc.prems by (simp only: startLoop.simps if_True simp_thms)
    then obtain d1 where d1: "startFront fuel throws d = Some (Inr d1)"
        "startLoop fuel throws rounds d1 = Some (Inr d')"
      by (auto simp: andThen_Inr)
    from startFront_pops[OF d1(1)] obtain ptr where f:
      "maxConcurrentActions d1 = maxConcurrentActions d"
      "activeActions d1 = (if throws ptr = None then activeActions d @ [ptr]
                           else remove1 ptr (activeActions d @ [ptr]))"
      by blast
    have "length (activeActions d1) \<le> Suc (length (activeActions d))"
      using f(2) by (simp add: length_remove1)
    then have "bounded d1" using True f(1) by (simp add: bounded_def)
    then show ?thesis using Suc.IH[OF d1(2)] by blast
  qed
qed

lemma startSomeActions_bounded:
  "startSomeActions fuel throws d = Some (Inr d') \<Longrightarrow> bounded d \<Longrightarrow> bounded d'"
  unfolding startSomeActions_def by (rule startLoop_bounded)

lemma rescanTag_calm: "rescanTag factory tag ps d = Inr d' \<Longrightarrow> calm d d'"
proof (induction ps arbitrary: d)
  case Nil
  then show ?case using calm_refl by (simp add: reflpD)
next
  case (Cons p ps)
  from Cons.prems obtain pr where pr: "provisionHeap d p = Some pr" by (auto split: option.splits)
  show ?case
  proof (cases "tryMakeAction factory tag (file' pr)")
    case None
    then show ?thesis using Cons pr by simp
  next
    case (Some a)
    then obtain d1 where d1: "queueNewAction a p d = Inr d1" "rescanTag factory tag ps d1 = Inr d'"
      using Cons.prems pr by (auto split: sum.splits)
    show ?thesis using calm_transD[OF queueNewAction_calm[OF d1(1)] Cons.IH[OF d1(2)]] .
  qed
qed

lemma rescanTags_calm: "rescanTags factory tags d = Inr d' \<Longrightarrow> calm d d'"
proof (induction tags arbitrary: d)
  case Nil
  then show ?case using calm_refl by (simp add: reflpD)
next
  case (Cons tag tags)
  from Cons.prems obtain d1 where d1: "rescanTag factory tag (searchTag (tagTable d) tag) d = Inr d1"
      "rescanTags factory tags d1 = Inr d'"
    by (auto split: sum.splits)
  show ?case using calm_transD[OF rescanTag_calm[OF d1(1)] Cons.IH[OF d1(2)]] .
qed

lemma addActionType_calm:
  assumes "addActionType a factory d = Inr d'"
  shows "calm d d'"
proof -
  from assms obtain d1 where d1: "rescanTags factory (enumerateTriggerTags factory)
                                    (addActionFactory factory d) = Inr d1"
      and d': "d' = d1\<lparr>ownedFactories := ownedFactories d1 @ [factory]\<rparr>"
    by (auto simp: addActionType_def rescanForNewFactory_def split: option.splits sum.splits)
  have "calm d (addActionFactory factory d)" by (simp add: calm_def addActionFactory_def)
  moreover have "calm (addActionFactory factory d) d1" using rescanTags_calm[OF d1] .
  moreover have "calm d1 d'" unfolding d' by (simp add: calm_def)
  ultimately show ?thesis using calm_transD by blast
qed

lemma findProvider_calm: "findProvider a tag d = Inr (found, d') \<Longrightarrow> calm d d'"
  by (auto simp: findProvider_def calm_def split: option.splits sum.splits)

lemma findInput_calm: "findInput a path d = Inr (found, d') \<Longrightarrow> calm d d'"
  using findProvider_calm by (auto simp: findInput_def split: option.splits sum.splits)

lemma provide_calm: "provide a f tags d = Inr d' \<Longrightarrow> calm d d'"
  by (auto simp: provide_def calm_def setAction_def split: option.splits sum.splits if_splits)

lemma newOutput_calm:
  assumes "newOutput a path d = Inr (f, d')"
  shows "calm d d'"
proof -
  from assms obtain d1 self1 where d1: "provide a (relative (tmp d) path) [DEFAULT_TAG] d = Inr d1"
    and d': "d' = setAction a (self1\<lparr>outputs := outputs self1 @ [relative (tmp d) path]\<rparr>) d1"
    by (auto simp: newOutput_def split: option.splits sum.splits)
  have "calm d1 d'" unfolding d' by (simp add: calm_def setAction_def)
  then show ?thesis using calm_transD[OF provide_calm[OF d1]] by blast
qed

lemma simple_calm:
  "log a text d = Inr d' \<Longrightarrow> calm d d'"
  "passed a d = Inr d' \<Longrightarrow> calm d d'"
  "failed a d = Inr d' \<Longrightarrow> calm d d'"
  "noMoreEvents a d = Inr d' \<Longrightarrow> calm d d'"
  "StartCallback_run a handle d = Inr d' \<Longrightarrow> calm d d'"
  by (auto simp: log_def passed_def failed_def noMoreEvents_def StartCallback_run_def calm_def
      setAction_def split: option.splits sum.splits if_splits)

lemma DoneCallback_run_bounded:
  assumes "DoneCallback_run fuel throws a d = Some (Inr d')" and "bounded d"
  shows "bounded d'"
proof -
  from assms(1) obtain self d1 where
    d1: "returned fuel a (setAction a (self\<lparr>asyncCallbackOp := None\<rparr>) d) = Some (Inr d1)" and
    d2: "startSomeActions fuel throws d1 = Some (Inr d')"
    by (auto simp: DoneCallback_run_def andThen_Inr split: option.splits)
  have "bounded (setAction a (self\<lparr>asyncCallbackOp := None\<rparr>) d)"
    using assms(2) by (simp add: bounded_def setAction_def)
  then have "bounded d1" using calm_bounded[OF returned_calm[OF d1]] by blast
  then show ?thesis using startSomeActions_bounded[OF d2] by blast
qed

lemma Driver_start_bounded:
  assumes "Driver_start fuel throws root d = Some (Inr d')" and "bounded d"
  shows "bounded d'"
proof -
  from assms(1) obtain d1 where d1: "scanLoop fuel [root] d = Some (Inr d1)"
    and d2: "startSomeActions fuel throws d1 = Some (Inr d')"
    by (auto simp: Driver_start_def scanSourceTree_def andThen_Inr)
  have "bounded d1" using calm_bounded[OF scanLoop_calm[OF d1] assms(2)] .
  then show ?thesis using startSomeActions_bounded[OF d2] by blast
qed

lemma reachable_bounded: "reachable d \<Longrightarrow> bounded d"
proof (induction rule: reachable.induct)
  case (constructed srcRoot tmpRoot dsk maxConcurrent)
  show ?case by (simp add: bounded_def newDriver_def)
next
  case (factory d factory)
  then show ?case by (simp add: bounded_def addActionFactory_def)
next
  case (started d fuel throws root d')
  then show ?case using Driver_start_bounded by blast
next
  case (startCallback d a self handle d')
  then show ?case using simple_calm(5) calm_bounded by blast
next
  case (doneCallback d a self fuel throws d')
  then show ?case using DoneCallback_run_bounded by blast
next
  case (called_findProvider d a tag found d')
  then show ?case using findProvider_calm calm_bounded by blast
next
  case (called_findInput d a path found d')
  then show ?case using findInput_calm calm_bounded by blast
next
  case (called_provide d a f tags d')
  then show ?case using provide_calm calm_bounded by blast
next
  case (called_newOutput d a path f d')
  then show ?case using newOutput_calm calm_bounded by blast
next
  case (called_log d a msg d')
  then show ?case using simple_calm(1) calm_bounded by blast
next
  case (called_addActionType d a factory d')
  then show ?case using addActionType_calm calm_bounded by blast
next
  case (called_passed d a d')
  then show ?case using simple_calm(2) calm_bounded by blast
next
  case (called_failed d a d')
  then show ?case using simple_calm(3) calm_bounded by blast
next
  case (noMoreEvents d a d')
  then show ?case using simple_calm(4) calm_bounded by blast
next
  case (threw d fuel a t d')
  then show ?case using threwException_calm calm_bounded by blast
next
  case (diskChanged d dsk)
  then show ?case by (simp add: bounded_def)
qed

subsection \<open>Enough fuel, and the actions whose state is RUNNING\<close>

lemma resetDependentActions_terminates:
  assumes "unsettled d < fuel"
  shows "resetDependentActions fuel tag d \<noteq> None"
proof (cases "actionsToReset d tag (dependencyTable d)")
  case (Inl e)
  then show ?thesis by (simp add: resetDependentActions_def)
next
  case (Inr acts)
  let ?I = "\<lambda>s. unsettled s < fuel"
  have "\<forall>x \<in> set acts. \<forall>s. ?I s \<longrightarrow> reset fuel x s \<noteq> None" using reset_terminates by blast
  moreover have "\<forall>x \<in> set acts. \<forall>s s'. ?I s \<longrightarrow> reset fuel x s = Some (Inr s') \<longrightarrow> ?I s'"
    using reset_unsettled by blast
  ultimately have "forEach (reset fuel) acts d \<noteq> None"
    using forEach_terminates[where I="?I"] assms by blast
  then show ?thesis using Inr by (simp add: resetDependentActions_def)
qed

lemma mends_refl: "reflp mends" by (simp add: reflp_def mends_def)

lemma mends_trans: "transp mends"
proof (rule transpI)
  fix a b c assume ab: "mends a b" and bc: "mends b c"
  show "mends a c"
    unfolding mends_def
  proof (intro conjI allI impI)
    show "unsettled c \<le> unsettled a" using ab bc unfolding mends_def by linarith
  next
    fix x
    have "plen x c \<le> plen x b" "plen x b \<le> plen x a" using ab bc unfolding mends_def by blast+
    then show "plen x c \<le> plen x a" by linarith
  next
    fix x r' assume c: "actionHeap c x = Some r'" "state r' \<noteq> PENDING"
    from bc c obtain rb where rb: "actionHeap b x = Some rb" "state rb = state r'"
        "asyncCallbackOp rb = asyncCallbackOp r'"
        "x \<in> set (activeActions b) \<longrightarrow> x \<in> set (activeActions c)"
      unfolding mends_def by blast
    from ab rb(1,2) c(2) obtain ra where ra: "actionHeap a x = Some ra" "state ra = state rb"
        "asyncCallbackOp ra = asyncCallbackOp rb"
        "x \<in> set (activeActions a) \<longrightarrow> x \<in> set (activeActions b)"
      unfolding mends_def by (metis (no_types, lifting))
    show "\<exists>r. actionHeap a x = Some r \<and> state r = state r'
             \<and> asyncCallbackOp r = asyncCallbackOp r'
             \<and> (x \<in> set (activeActions a) \<longrightarrow> x \<in> set (activeActions c))"
      using ra rb by simp
  qed
qed

lemma mends_transD: "mends a b \<Longrightarrow> mends b c \<Longrightarrow> mends a c"
  using mends_trans by (blast dest: transpD)

lemma mends_unsettled: "mends d d' \<Longrightarrow> unsettled d' \<le> unsettled d"
  by (simp add: mends_def)

lemma mends_plen: "mends d d' \<Longrightarrow> plen x d' \<le> plen x d"
  by (simp add: mends_def)

lemma mends_tidy:
  assumes "mends d d'" and "tidy d"
  shows "tidy d'"
  unfolding tidy_def
proof (intro allI impI)
  fix x r' assume x: "actionHeap d' x = Some r'" "state r' = RUNNING"
  then have "state r' \<noteq> PENDING" by simp
  with assms(1) x(1) obtain r where r: "actionHeap d x = Some r" "state r = state r'"
      "asyncCallbackOp r = asyncCallbackOp r'"
      "x \<in> set (activeActions d) \<longrightarrow> x \<in> set (activeActions d')"
    unfolding mends_def by blast
  from assms(2) r(1,2) x(2) have "x \<in> set (activeActions d)" "asyncCallbackOp r \<noteq> Some DoneCallback"
    unfolding tidy_def by auto
  then show "x \<in> set (activeActions d') \<and> asyncCallbackOp r' \<noteq> Some DoneCallback"
    using r by simp
qed

lemma mends_requeue:
  assumes rq: "requeue this self d = Inr d1" and self: "actionHeap d this = Some self"
  shows "mends d d1"
  using requeue_cases[OF rq]
proof (elim disjE conjE)
  assume act: "this \<in> set (activeActions d)"
    and d1: "d1 = setAction this
                 (self\<lparr>dashboardTask := setState Dashboard_BLOCKED (dashboardTask self),
                       runningAction := False, asyncCallbackOp := None,
                       isRunning := False, state := PENDING\<rparr>)
                 (d\<lparr>activeActions := remove1 this (activeActions d),
                    pendingActions := pendingActions d @ [this]\<rparr>)"
  show ?thesis
    unfolding mends_def d1 setAction_def unsettled_def plen_def using act self
    by (auto simp: length_remove1)
next
  assume cmp: "this \<in> set (completedActionPtrs d)"
    and d1: "d1 = setAction this (self\<lparr>state := PENDING\<rparr>)
                 (d\<lparr>completedActionPtrs := removeAll this (completedActionPtrs d),
                    pendingActions := pendingActions d @ [this]\<rparr>)"
  have "length (removeAll this (completedActionPtrs d)) \<le> length (completedActionPtrs d)"
    by (rule length_removeAll_le)
  then show ?thesis
    unfolding mends_def d1 setAction_def unsettled_def plen_def using cmp self
    by auto
qed

lemma mends_delete:
  "mends d (deleteActionDriver x (d\<lparr>pendingActions := releaseLast x (pendingActions d)\<rparr>))"
  unfolding mends_def deleteActionDriver_def unsettled_def plen_def
  by (auto split: option.splits)

lemma mends_erase:
  "mends d (d\<lparr>actionsByTrigger := filter P (actionsByTrigger d)\<rparr>)"
  "mends d (d\<lparr>tagTable := tt, dependencyTable := dt\<rparr>)"
  by (auto simp: mends_def unsettled_def plen_def)

lemma mends_forget: "forget this d = Some (Inr d') \<Longrightarrow> mends d d'"
  by (drule forget_cases) (auto simp: mends_def unsettled_def plen_def setAction_def split: if_splits)

lemma reset_mends: "reset fuel this d = Some (Inr d') \<Longrightarrow> mends d d'"
  apply (erule reset_rel[where R=mends, OF mends_refl mends_trans, rotated -1])
  subgoal by (blast intro: mends_requeue)
  subgoal by (rule mends_delete)
  subgoal by (rule mends_erase)
  subgoal by (rule mends_erase)
  subgoal by (blast intro: mends_forget)
  done


lemma forEach_mends:
  assumes "\<forall>x \<in> set xs. \<forall>d d'. f x d = Some (Inr d') \<longrightarrow> mends d d'"
    and "forEach f xs d = Some (Inr d')"
  shows "mends d d'"
  using forEach_rel[where R=mends, OF mends_refl mends_trans assms] .

lemma mends_same:
  "activeActions d' = activeActions d \<Longrightarrow> completedActionPtrs d' = completedActionPtrs d \<Longrightarrow>
   actionHeap d' = actionHeap d \<Longrightarrow> mends d d'"
  by (simp add: mends_def unsettled_def plen_def)

lemma queueNewAction_mends: "queueNewAction a p d = Inr d' \<Longrightarrow> mends d d'"
  by (auto simp: queueNewAction_def mends_def unsettled_def plen_def split: option.splits if_splits)

lemma fireFactories_mends: "fireFactories tag p fs d = Inr d' \<Longrightarrow> mends d d'"
proof (induction fs arbitrary: d)
  case Nil
  then show ?case using mends_refl by (simp add: reflpD)
next
  case (Cons f fs)
  from Cons.prems obtain pr where pr: "provisionHeap d p = Some pr" by (auto split: option.splits)
  show ?case
  proof (cases "tryMakeAction f tag (file' pr)")
    case None
    then show ?thesis using Cons pr by simp
  next
    case (Some a)
    then obtain d1 where d1: "queueNewAction a p d = Inr d1" "fireFactories tag p fs d1 = Inr d'"
      using Cons.prems pr by (auto split: sum.splits)
    show ?thesis using mends_transD[OF queueNewAction_mends[OF d1(1)] Cons.IH[OF d1(2)]] .
  qed
qed

lemma resetDependentActions_mends:
  assumes "resetDependentActions fuel tag d = Some (Inr d')"
  shows "mends d d'"
proof -
  from assms obtain acts where "forEach (reset fuel) acts d = Some (Inr d')"
    by (auto simp: resetDependentActions_def split: sum.splits)
  moreover have "\<forall>x \<in> set acts. \<forall>d d'. reset fuel x d = Some (Inr d') \<longrightarrow> mends d d'"
    using reset_mends by blast
  ultimately show ?thesis using forEach_mends[where f="reset fuel"] by blast
qed

lemma registerTag_mends:
  assumes "registerTag fuel p tag d = Some (Inr d')"
  shows "mends d d'"
proof -
  from assms obtain d1 where
    d1: "resetDependentActions fuel tag (d\<lparr>tagTable := tagTable d @ [(tag, p)]\<rparr>) = Some (Inr d1)"
    and d2: "fireTriggers tag p d1 = Inr d'"
    by (auto simp: registerTag_def andThen_Inr split: option.splits)
  have "mends d (d\<lparr>tagTable := tagTable d @ [(tag, p)]\<rparr>)" by (rule mends_same) simp_all
  moreover have "mends (d\<lparr>tagTable := tagTable d @ [(tag, p)]\<rparr>) d1"
    using resetDependentActions_mends[OF d1] .
  moreover have "mends d1 d'" using d2 fireFactories_mends by (simp add: fireTriggers_def)
  ultimately show ?thesis using mends_transD by blast
qed

lemma registerProvider_mends:
  assumes "registerProvider fuel p tags d = Some (Inr d')"
  shows "mends d d'"
proof -
  from assms obtain pr where
    run: "forEach (registerTag fuel p) tags
            (d\<lparr>provisionHeap := (provisionHeap d)(p \<mapsto>
                  pr\<lparr>contentHash := fileContentHash (disk d) (file' pr)\<rparr>)\<rparr>) = Some (Inr d')"
    by (auto simp: registerProvider_def split: option.splits)
  have "mends d (d\<lparr>provisionHeap := (provisionHeap d)(p \<mapsto>
                  pr\<lparr>contentHash := fileContentHash (disk d) (file' pr)\<rparr>)\<rparr>)"
    by (rule mends_same) simp_all
  moreover have "mends (d\<lparr>provisionHeap := (provisionHeap d)(p \<mapsto>
                  pr\<lparr>contentHash := fileContentHash (disk d) (file' pr)\<rparr>)\<rparr>) d'"
    by (rule forEach_mends[OF _ run]) (use registerTag_mends in blast)
  ultimately show ?thesis using mends_transD by blast
qed

lemma registerProvisions_mends:
  "registerProvisions fuel this i rounds d = Some (Inr d') \<Longrightarrow> mends d d'"
proof (induction rounds arbitrary: i d)
  case 0
  then have "d' = d" by (simp split: option.splits if_splits)
  then show ?case using mends_refl by (simp add: reflpD)
next
  case (Suc rounds)
  from Suc.prems obtain self where self: "actionHeap d this = Some self"
    by (auto split: option.splits)
  show ?case
  proof (cases "i < length (provisions self)")
    case False
    then show ?thesis using Suc.prems self mends_refl by (simp add: reflpD)
  next
    case True
    then obtain d1 where
      d1: "registerProvider fuel (provisions self ! i) (providedTags self ! i) d = Some (Inr d1)"
      and d2: "registerProvisions fuel this (Suc i) rounds d1 = Some (Inr d')"
      using Suc.prems self by (auto simp: andThen_Inr split: if_splits)
    show ?thesis using mends_transD[OF registerProvider_mends[OF d1] Suc.IH[OF d2]] .
  qed
qed

lemma registerTag_terminates:
  assumes "unsettled d < fuel"
  shows "registerTag fuel p tag d \<noteq> None"
proof -
  let ?d0 = "d\<lparr>tagTable := tagTable d @ [(tag, p)]\<rparr>"
  have "unsettled ?d0 < fuel" using assms by (simp add: unsettled_def)
  then have "resetDependentActions fuel tag ?d0 \<noteq> None" by (rule resetDependentActions_terminates)
  then show ?thesis by (auto simp: registerTag_def andThen_def split: sum.splits option.splits)
qed

lemma registerProvider_terminates:
  assumes "unsettled d < fuel"
  shows "registerProvider fuel p tags d \<noteq> None"
proof (cases "provisionHeap d p")
  case None
  then show ?thesis by (simp add: registerProvider_def)
next
  case (Some pr)
  let ?d0 = "d\<lparr>provisionHeap := (provisionHeap d)(p \<mapsto>
                  pr\<lparr>contentHash := fileContentHash (disk d) (file' pr)\<rparr>)\<rparr>"
  let ?I = "\<lambda>s. unsettled s < fuel"
  have live: "\<forall>x \<in> set tags. \<forall>s. ?I s \<longrightarrow> registerTag fuel p x s \<noteq> None"
    using registerTag_terminates by blast
  have step: "\<forall>x \<in> set tags. \<forall>s s'. ?I s \<longrightarrow> registerTag fuel p x s = Some (Inr s') \<longrightarrow> ?I s'"
    using registerTag_mends mends_unsettled by (meson le_less_trans)
  have init: "?I ?d0" using assms by (simp add: unsettled_def)
  have "forEach (registerTag fuel p) tags ?d0 \<noteq> None"
    by (rule forEach_terminates[where I="?I", OF live step init])
  then show ?thesis using Some by (simp add: registerProvider_def)
qed

lemma registerProvisions_terminates:
  "plen this d \<le> i + rounds \<Longrightarrow> unsettled d < fuel \<Longrightarrow>
   registerProvisions fuel this i rounds d \<noteq> None"
proof (induction rounds arbitrary: i d)
  case 0
  then show ?case by (auto simp: plen_def split: option.splits)
next
  case (Suc rounds)
  show ?case
  proof (cases "actionHeap d this")
    case None
    then show ?thesis by simp
  next
    case (Some self)
    show ?thesis
    proof (cases "i < length (provisions self) \<and> i < length (providedTags self)")
      case False
      then show ?thesis using Some by auto
    next
      case True
      let ?step = "registerProvider fuel (provisions self ! i) (providedTags self ! i) d"
      have eq: "registerProvisions fuel this i (Suc rounds) d =
                  andThen ?step (registerProvisions fuel this (Suc i) rounds)"
        using Some True by simp
      have "?step \<noteq> None" using Suc.prems(2) by (rule registerProvider_terminates)
      then obtain r where r: "?step = Some r" by blast
      show ?thesis
      proof (cases r)
        case (Inl e)
        then show ?thesis using eq r by (simp add: andThen_def)
      next
        case (Inr d1)
        have m: "mends d d1" using registerProvider_mends r Inr by blast
        have "plen this d1 \<le> Suc i + rounds"
          using mends_plen[OF m, of this] Suc.prems(1) by simp
        moreover have "unsettled d1 < fuel" using mends_unsettled[OF m] Suc.prems(2) by simp
        ultimately have "registerProvisions fuel this (Suc i) rounds d1 \<noteq> None"
          by (rule Suc.IH)
        then show ?thesis using eq r Inr by (simp add: andThen_def)
      qed
    qed
  qed
qed

lemma returned_stops:
  assumes "actionHeap d this = Some self"
    and "\<not> isRunning self \<or> this \<notin> set (activeActions d) \<or> state self = FAILED
         \<or> (\<exists>e. existing (disk d) (provisionHeap d) (provisions self) = Inl e)"
  shows "returned fuel this d \<noteq> None"
  unfolding returned_def using assms
  by (cases "existing (disk d) (provisionHeap d) (provisions self)")
     (auto simp: ensureRunning_def)

lemma returned_goes:
  assumes Some: "actionHeap d this = Some self"
    and True: "isRunning self \<and> this \<in> set (activeActions d) \<and> state self \<noteq> FAILED"
    and Inr: "existing (disk d) (provisionHeap d) (provisions self) = Inr kept"
  shows "returned fuel this d =
          andThen (registerProvisions fuel this 0 (length kept) (setAction this
          (self\<lparr>runningAction := False, isRunning := False, provisions := kept,
                dashboardTask :=
                  setState (if state self = PASSED then Dashboard_PASSED else Dashboard_DONE)
                    (dashboardTask self)\<rparr>)
          (d\<lparr>activeActions := remove1 this (activeActions d),
             completedActionPtrs :=
               (if this \<in> set (completedActionPtrs d) then completedActionPtrs d
                else completedActionPtrs d @ [this])\<rparr>)))
            (\<lambda>d1. case actionHeap d1 this of
                     None \<Rightarrow> Some (Inl UseAfterFree)
                   | Some self1 \<Rightarrow>
                       Some (Inr (setAction this (self1\<lparr>providedTags := []\<rparr>)
                                    (d1\<lparr>provisionHeap :=
                                          freeProvisions
                                            (filter (\<lambda>p. p \<notin> set kept) (provisions self))
                                            (provisionHeap d1)\<rparr>))))"
  unfolding returned_def using Some True Inr by (simp add: ensureRunning_def)

lemma returned_terminates:
  assumes "unsettled d < fuel"
  shows "returned fuel this d \<noteq> None"
proof (cases "actionHeap d this")
  case None
  then show ?thesis by (simp add: returned_def)
next
  case (Some self)
  show ?thesis
  proof (cases "\<not> isRunning self \<or> this \<notin> set (activeActions d) \<or> state self = FAILED
         \<or> (\<exists>e. existing (disk d) (provisionHeap d) (provisions self) = Inl e)")
    case True
    with Some show ?thesis by (rule returned_stops)
  next
    case False
    then have run: "isRunning self \<and> this \<in> set (activeActions d) \<and> state self \<noteq> FAILED"
      by blast
    obtain kept where
      kept: "existing (disk d) (provisionHeap d) (provisions self) = Inr kept"
    proof (cases "existing (disk d) (provisionHeap d) (provisions self)")
      case (Inl e)
      then show ?thesis using False by blast
    next
      case (Inr k)
      then show ?thesis using that by blast
    qed
    let ?d0 = "setAction this
          (self\<lparr>runningAction := False, isRunning := False, provisions := kept,
                dashboardTask :=
                  setState (if state self = PASSED then Dashboard_PASSED else Dashboard_DONE)
                    (dashboardTask self)\<rparr>)
          (d\<lparr>activeActions := remove1 this (activeActions d),
             completedActionPtrs :=
               (if this \<in> set (completedActionPtrs d) then completedActionPtrs d
                else completedActionPtrs d @ [this])\<rparr>)"
    note eq = returned_goes[OF Some run kept, of fuel]
    have mem: "this \<in> set (activeActions d)" using run by simp
    then have pos: "0 < length (activeActions d)" by (rule length_pos_if_in_set)
    have lt: "length (remove1 this (activeActions d)) < length (activeActions d)"
      using mem pos by (simp add: length_remove1)
    have a0: "activeActions ?d0 = remove1 this (activeActions d)" by (simp add: setAction_def)
    have c0: "length (completedActionPtrs ?d0) \<le> Suc (length (completedActionPtrs d))"
      by (simp add: setAction_def)
    have u: "unsettled ?d0 < fuel"
      unfolding unsettled_def a0 using c0 lt assms[unfolded unsettled_def] by linarith
    have p: "plen this ?d0 \<le> 0 + length kept" by (simp add: plen_def setAction_def)
    have "registerProvisions fuel this 0 (length kept) ?d0 \<noteq> None"
      using p u by (rule registerProvisions_terminates)
    then obtain r where r: "registerProvisions fuel this 0 (length kept) ?d0 = Some r" by blast
    show ?thesis
    proof (cases r)
      case (Inl e)
      then show ?thesis unfolding eq r by (simp add: andThen_def)
    next
      case (Inr d1)
      then show ?thesis unfolding eq r by (cases "actionHeap d1 this") (simp_all add: andThen_def)
    qed
  qed
qed
lemma DoneCallback_run_terminates:
  assumes "unsettled d < fuel"
  shows "DoneCallback_run fuel throws a d \<noteq> None"
proof (cases "actionHeap d a")
  case None
  then show ?thesis by (simp add: DoneCallback_run_def)
next
  case (Some self)
  let ?d0 = "setAction a (self\<lparr>asyncCallbackOp := None\<rparr>) d"
  have "unsettled ?d0 < fuel" using assms by (simp add: unsettled_def setAction_def)
  then have "returned fuel a ?d0 \<noteq> None" by (rule returned_terminates)
  moreover have "startSomeActions fuel throws s \<noteq> None" for s
    unfolding startSomeActions_def by (rule startLoop_terminates) simp
  ultimately show ?thesis using Some
    by (auto simp: DoneCallback_run_def andThen_def split: sum.splits)
qed

lemma registerRoot_mends:
  assumes "registerRoot fuel f d = Some (Inr d')"
  shows "mends d d'"
proof -
  let ?d0 = "d\<lparr>provisionHeap :=
                 (provisionHeap d)(allocated d \<mapsto> \<lparr>file' = f, contentHash = NullHash\<rparr>),
               allocated := Suc (allocated d)\<rparr>"
  from assms obtain d1 where
    d1: "registerProvider fuel (allocated d) [DEFAULT_TAG] ?d0 = Some (Inr d1)" and
    d': "d' = d1\<lparr>rootProvisions := rootProvisions d1 @ [allocated d]\<rparr>"
    by (auto simp: registerRoot_def andThen_Inr)
  have "mends d ?d0" by (rule mends_same) simp_all
  moreover have "mends ?d0 d1" using registerProvider_mends[OF d1] .
  moreover have "mends d1 d'" unfolding d' by (rule mends_same) simp_all
  ultimately show ?thesis using mends_transD by blast
qed

lemma registerRoot_terminates:
  assumes "unsettled d < fuel"
  shows "registerRoot fuel f d \<noteq> None"
proof -
  let ?d0 = "d\<lparr>provisionHeap :=
                 (provisionHeap d)(allocated d \<mapsto> \<lparr>file' = f, contentHash = NullHash\<rparr>),
               allocated := Suc (allocated d)\<rparr>"
  have "unsettled ?d0 < fuel" using assms by (simp add: unsettled_def)
  then have "registerProvider fuel (allocated d) [DEFAULT_TAG] ?d0 \<noteq> None"
    by (rule registerProvider_terminates)
  then show ?thesis by (auto simp: registerRoot_def andThen_def split: sum.splits)
qed

lemma scanLoop_mends: "scanLoop fuel fileQueue d = Some (Inr d') \<Longrightarrow> mends d d'"
proof (induction fuel fileQueue d rule: scanLoop.induct)
  case (1 fuel d)
  then show ?case using mends_refl by (simp add: reflpD)
next
  case (2 fuel name entries fileQueue d)
  then show ?case by simp
next
  case (3 fuel current fileQueue d)
  from "3.prems" obtain d1 where d1: "registerRoot fuel current d = Some (Inr d1)"
      "scanLoop fuel fileQueue d1 = Some (Inr d')"
    by (auto split: option.splits sum.splits)
  show ?case using mends_transD[OF registerRoot_mends[OF d1(1)] "3.IH"[OF d1(1) refl d1(2)]] .
qed

lemma scanLoop_terminates: "unsettled d < fuel \<Longrightarrow> scanLoop fuel fileQueue d \<noteq> None"
proof (induction fuel fileQueue d rule: scanLoop.induct)
  case (1 fuel d)
  show ?case by simp
next
  case (2 fuel name entries fileQueue d)
  then show ?case by simp
next
  case (3 fuel current fileQueue d)
  from registerRoot_terminates[OF "3.prems"] obtain r where
    r: "registerRoot fuel current d = Some r" by blast
  show ?case
  proof (cases r)
    case (Inl e)
    then show ?thesis using r by simp
  next
    case (Inr d1)
    have "unsettled d1 < fuel"
      using mends_unsettled[OF registerRoot_mends] r Inr "3.prems" by (meson le_less_trans)
    then have "scanLoop fuel fileQueue d1 \<noteq> None" using "3.IH" r Inr by blast
    then show ?thesis using r Inr by simp
  qed
qed

lemma Driver_start_terminates:
  assumes "unsettled d < fuel"
  shows "Driver_start fuel throws root d \<noteq> None"
proof -
  have "scanLoop fuel [root] d \<noteq> None" using assms by (rule scanLoop_terminates)
  moreover have "startSomeActions fuel throws s \<noteq> None" for s
    unfolding startSomeActions_def by (rule startLoop_terminates) simp
  ultimately show ?thesis
    by (auto simp: Driver_start_def scanSourceTree_def andThen_def split: sum.splits)
qed

lemma tidy_except:
  "tidy (d\<lparr>actionHeap := (actionHeap d)(this := None)\<rparr>) \<longleftrightarrow>
     (\<forall>x r. x \<noteq> this \<longrightarrow> actionHeap d x = Some r \<longrightarrow> state r = RUNNING \<longrightarrow>
        x \<in> set (activeActions d) \<and> asyncCallbackOp r \<noteq> Some DoneCallback)"
  by (auto simp: tidy_def)

lemma tidy_exceptI: "tidy d \<Longrightarrow> tidy (d\<lparr>actionHeap := (actionHeap d)(this := None)\<rparr>)"
  by (simp add: tidy_def)

lemma tidy_setAction:
  assumes "tidy (d\<lparr>actionHeap := (actionHeap d)(this := None)\<rparr>)"
    and "state self = RUNNING \<longrightarrow>
           this \<in> set (activeActions d) \<and> asyncCallbackOp self \<noteq> Some DoneCallback"
  shows "tidy (setAction this self d)"
  using assms unfolding tidy_except unfolding tidy_def setAction_def by auto

lemma tidy_same:
  assumes "tidy d" and "actionHeap d' = actionHeap d"
    and "set (activeActions d) \<subseteq> set (activeActions d')"
  shows "tidy d'"
  using assms unfolding tidy_def by auto

lemma tidy_remove1:
  assumes "tidy d" and "actionHeap d this = Some self" and "state self \<noteq> RUNNING"
    and "actionHeap d' = actionHeap d" and "activeActions d' = remove1 this (activeActions d)"
  shows "tidy d'"
  unfolding tidy_def
proof (intro allI impI)
  fix x r assume x: "actionHeap d' x = Some r" "state r = RUNNING"
  then have "x \<noteq> this" using assms(2,3,4) by auto
  moreover have "x \<in> set (activeActions d)" "asyncCallbackOp r \<noteq> Some DoneCallback"
    using assms(1,4) x unfolding tidy_def by auto
  ultimately show "x \<in> set (activeActions d') \<and> asyncCallbackOp r \<noteq> Some DoneCallback"
    using assms(5) by simp
qed

lemma returned_tidy:
  assumes run: "returned fuel this d = Some (Inr d')"
    and self: "actionHeap d this = Some self" and st: "state self \<noteq> RUNNING" and t: "tidy d"
  shows "tidy d'"
proof (cases "state self = FAILED")
  case True
  let ?self1 = "self\<lparr>runningAction := False, isRunning := False,
                      provisions := [], providedTags := [], outputs := [],
                      dashboardTask := setState Dashboard_BLOCKED (dashboardTask self)\<rparr>"
  let ?d0 = "d\<lparr>activeActions := remove1 this (activeActions d),
               completedActionPtrs :=
                 (if this \<in> set (completedActionPtrs d) then completedActionPtrs d
                  else completedActionPtrs d @ [this]),
               provisionHeap := freeProvisions (provisions self) (provisionHeap d)\<rparr>"
  have d': "d' = setAction this ?self1 ?d0"
    using run self True by (simp add: returned_def ensureRunning_def split: if_splits)
  have "tidy ?d0" by (rule tidy_remove1[OF t self st]) simp_all
  then have "tidy (?d0\<lparr>actionHeap := (actionHeap ?d0)(this := None)\<rparr>)" by (rule tidy_exceptI)
  then show ?thesis unfolding d' by (rule tidy_setAction) (use st in simp)
next
  case False
  from returned_parts[OF run self False] obtain kept d1 self1 where
    d1: "registerProvisions fuel this 0 (length kept)
       (setAction this
          (self\<lparr>runningAction := False, isRunning := False, provisions := kept,
                dashboardTask :=
                  setState (if state self = PASSED then Dashboard_PASSED else Dashboard_DONE)
                    (dashboardTask self)\<rparr>)
          (d\<lparr>activeActions := remove1 this (activeActions d),
             completedActionPtrs :=
               (if this \<in> set (completedActionPtrs d) then completedActionPtrs d
                else completedActionPtrs d @ [this])\<rparr>)) = Some (Inr d1)" and
    s1: "actionHeap d1 this = Some self1" and
    d': "d' = setAction this (self1\<lparr>providedTags := []\<rparr>)
            (d1\<lparr>provisionHeap :=
                  freeProvisions (filter (\<lambda>p. p \<notin> set kept) (provisions self))
                    (provisionHeap d1)\<rparr>)"
    by blast
  let ?self0 = "self\<lparr>runningAction := False, isRunning := False, provisions := kept,
                dashboardTask :=
                  setState (if state self = PASSED then Dashboard_PASSED else Dashboard_DONE)
                    (dashboardTask self)\<rparr>"
  let ?d0 = "d\<lparr>activeActions := remove1 this (activeActions d),
             completedActionPtrs :=
               (if this \<in> set (completedActionPtrs d) then completedActionPtrs d
                else completedActionPtrs d @ [this])\<rparr>"
  have "tidy ?d0" by (rule tidy_remove1[OF t self st]) simp_all
  then have "tidy (?d0\<lparr>actionHeap := (actionHeap ?d0)(this := None)\<rparr>)" by (rule tidy_exceptI)
  then have "tidy (setAction this ?self0 ?d0)" by (rule tidy_setAction) (use st in simp)
  then have t1: "tidy d1" using mends_tidy[OF registerProvisions_mends[OF d1]] by blast
  let ?d2 = "d1\<lparr>provisionHeap :=
                  freeProvisions (filter (\<lambda>p. p \<notin> set kept) (provisions self))
                    (provisionHeap d1)\<rparr>"
  have t2: "tidy ?d2" by (rule tidy_same[OF t1]) simp_all
  have "state self1 = RUNNING \<longrightarrow>
          this \<in> set (activeActions d1) \<and> asyncCallbackOp self1 \<noteq> Some DoneCallback"
    using t1 s1 unfolding tidy_def by blast
  then have "state (self1\<lparr>providedTags := []\<rparr>) = RUNNING \<longrightarrow>
          this \<in> set (activeActions ?d2)
          \<and> asyncCallbackOp (self1\<lparr>providedTags := []\<rparr>) \<noteq> Some DoneCallback"
    by simp
  with tidy_exceptI[OF t2, of this] show ?thesis unfolding d' by (rule tidy_setAction)
qed

lemma threwException_tidy:
  assumes run: "threwException fuel this t d = Some (Inr d')"
    and t: "tidy (d\<lparr>actionHeap := (actionHeap d)(this := None)\<rparr>)"
  shows "tidy d'"
proof -
  from run obtain self where self: "actionHeap d this = Some self"
    by (auto simp: threwException_def split: option.splits)
  let ?self1 = "self\<lparr>dashboardTask := addOutput (what t) (dashboardTask self),
                      asyncCallbackOp := None, state := FAILED\<rparr>"
  have r: "returned fuel this (setAction this ?self1 d) = Some (Inr d')"
    using run self by (simp add: threwException_def split: sum.splits)
  have t1: "tidy (setAction this ?self1 d)" using t by (rule tidy_setAction) simp
  have h: "actionHeap (setAction this ?self1 d) this = Some ?self1" by (simp add: setAction_def)
  have s: "state ?self1 \<noteq> RUNNING" by simp
  show ?thesis by (rule returned_tidy[OF r h s t1])
qed


lemma startFront_tidy:
  assumes run: "startFront fuel throws d = Some (Inr d')" and t: "tidy d"
  shows "tidy d'"
proof (cases "pendingActions d")
  case Nil
  then show ?thesis using run by (simp add: startFront_def)
next
  case (Cons ptr rest)
  let ?d0 = "d\<lparr>pendingActions := rest, activeActions := activeActions d @ [ptr]\<rparr>"
  from run Cons obtain d1 where d1: "start ptr (throws ptr) ?d0 = Inr d1"
    by (auto simp: startFront_def split: sum.splits)
  from start_cases[OF d1] obtain self where self: "actionHeap ?d0 ptr = Some self"
    and d1': "d1 = setAction ptr
              (self\<lparr>state := RUNNING, isRunning := True,
                    dashboardTask := setState Dashboard_RUNNING (dashboardTask self),
                    asyncCallbackOp :=
                      (if throws ptr = None then Some StartCallback else asyncCallbackOp self)\<rparr>) ?d0"
    by blast
  have t0: "tidy ?d0" by (rule tidy_same[OF t]) auto
  have e0: "tidy (?d0\<lparr>actionHeap := (actionHeap ?d0)(ptr := None)\<rparr>)"
    using t0 by (rule tidy_exceptI)
  show ?thesis
  proof (cases "throws ptr")
    case None
    then have "d' = d1" using run Cons d1 by (simp add: startFront_def)
    moreover have "tidy d1" unfolding d1' using e0 by (rule tidy_setAction) (simp add: None)
    ultimately show ?thesis by simp
  next
    case (Some th)
    then have th: "threwException fuel ptr th d1 = Some (Inr d')"
      using run Cons d1 by (simp add: startFront_def)
    have "d1\<lparr>actionHeap := (actionHeap d1)(ptr := None)\<rparr>
          = ?d0\<lparr>actionHeap := (actionHeap ?d0)(ptr := None)\<rparr>"
      unfolding d1' by (simp add: setAction_def)
    then have "tidy (d1\<lparr>actionHeap := (actionHeap d1)(ptr := None)\<rparr>)" using e0 by simp
    then show ?thesis by (rule threwException_tidy[OF th])
  qed
qed

lemma startLoop_tidy:
  "startLoop fuel throws rounds d = Some (Inr d') \<Longrightarrow> tidy d \<Longrightarrow> tidy d'"
proof (induction rounds arbitrary: d)
  case 0
  then have "d' = d" by (simp split: if_splits)
  then show ?case using 0 by simp
next
  case (Suc rounds)
  show ?case
  proof (cases "int (length (activeActions d)) < maxConcurrentActions d \<and> pendingActions d \<noteq> []")
    case False
    then have "startLoop fuel throws (Suc rounds) d = Some (Inr d)"
      by (simp only: startLoop.simps if_False)
    then show ?thesis using Suc.prems by simp
  next
    case True
    then have "andThen (startFront fuel throws d) (startLoop fuel throws rounds) = Some (Inr d')"
      using Suc.prems by (simp only: startLoop.simps if_True simp_thms)
    then obtain d1 where d1: "startFront fuel throws d = Some (Inr d1)"
        "startLoop fuel throws rounds d1 = Some (Inr d')"
      by (auto simp: andThen_Inr)
    have "tidy d1" using startFront_tidy[OF d1(1) Suc.prems(2)] .
    then show ?thesis using Suc.IH[OF d1(2)] by blast
  qed
qed

lemma startSomeActions_tidy:
  "startSomeActions fuel throws d = Some (Inr d') \<Longrightarrow> tidy d \<Longrightarrow> tidy d'"
  unfolding startSomeActions_def by (rule startLoop_tidy)

lemma DoneCallback_run_tidy:
  assumes run: "DoneCallback_run fuel throws a d = Some (Inr d')"
    and self: "actionHeap d a = Some self" and cb: "asyncCallbackOp self = Some DoneCallback"
    and t: "tidy d"
  shows "tidy d'"
proof -
  let ?self0 = "self\<lparr>asyncCallbackOp := None\<rparr>"
  from run self obtain d1 where
    d1: "returned fuel a (setAction a ?self0 d) = Some (Inr d1)" and
    d2: "startSomeActions fuel throws d1 = Some (Inr d')"
    by (auto simp: DoneCallback_run_def andThen_Inr)
  have st: "state self \<noteq> RUNNING" using t self cb unfolding tidy_def by blast
  have t0: "tidy (setAction a ?self0 d)"
    using tidy_exceptI[OF t] by (rule tidy_setAction) (use st in simp)
  have h: "actionHeap (setAction a ?self0 d) a = Some ?self0" by (simp add: setAction_def)
  have s: "state ?self0 \<noteq> RUNNING" using st by simp
  have "tidy d1" by (rule returned_tidy[OF d1 h s t0])
  then show ?thesis using startSomeActions_tidy[OF d2] by blast
qed

lemma Driver_start_tidy:
  assumes "Driver_start fuel throws root d = Some (Inr d')" and "tidy d"
  shows "tidy d'"
proof -
  from assms(1) obtain d1 where d1: "scanLoop fuel [root] d = Some (Inr d1)"
    and d2: "startSomeActions fuel throws d1 = Some (Inr d')"
    by (auto simp: Driver_start_def scanSourceTree_def andThen_Inr)
  have "tidy d1" using mends_tidy[OF scanLoop_mends[OF d1] assms(2)] .
  then show ?thesis using startSomeActions_tidy[OF d2] by blast
qed

lemma rescanTag_mends: "rescanTag factory tag ps d = Inr d' \<Longrightarrow> mends d d'"
proof (induction ps arbitrary: d)
  case Nil
  then show ?case using mends_refl by (simp add: reflpD)
next
  case (Cons p ps)
  from Cons.prems obtain pr where pr: "provisionHeap d p = Some pr" by (auto split: option.splits)
  show ?case
  proof (cases "tryMakeAction factory tag (file' pr)")
    case None
    then show ?thesis using Cons pr by simp
  next
    case (Some a)
    then obtain d1 where d1: "queueNewAction a p d = Inr d1" "rescanTag factory tag ps d1 = Inr d'"
      using Cons.prems pr by (auto split: sum.splits)
    show ?thesis using mends_transD[OF queueNewAction_mends[OF d1(1)] Cons.IH[OF d1(2)]] .
  qed
qed

lemma rescanTags_mends: "rescanTags factory tags d = Inr d' \<Longrightarrow> mends d d'"
proof (induction tags arbitrary: d)
  case Nil
  then show ?case using mends_refl by (simp add: reflpD)
next
  case (Cons tag tags)
  from Cons.prems obtain d1 where d1: "rescanTag factory tag (searchTag (tagTable d) tag) d = Inr d1"
      "rescanTags factory tags d1 = Inr d'"
    by (auto split: sum.splits)
  show ?case using mends_transD[OF rescanTag_mends[OF d1(1)] Cons.IH[OF d1(2)]] .
qed

lemma addActionType_mends:
  assumes "addActionType a factory d = Inr d'"
  shows "mends d d'"
proof -
  from assms obtain d1 where d1: "rescanTags factory (enumerateTriggerTags factory)
                                    (addActionFactory factory d) = Inr d1"
      and d': "d' = d1\<lparr>ownedFactories := ownedFactories d1 @ [factory]\<rparr>"
    by (auto simp: addActionType_def rescanForNewFactory_def split: option.splits sum.splits)
  have "mends d (addActionFactory factory d)"
    by (rule mends_same) (simp_all add: addActionFactory_def)
  moreover have "mends (addActionFactory factory d) d1" using rescanTags_mends[OF d1] .
  moreover have "mends d1 d'" unfolding d' by (rule mends_same) simp_all
  ultimately show ?thesis using mends_transD by blast
qed


lemma findProvider_tidy: "findProvider a tag d = Inr (found, d') \<Longrightarrow> tidy d \<Longrightarrow> tidy d'"
  by (auto simp: findProvider_def tidy_def split: option.splits sum.splits)

lemma findInput_tidy: "findInput a path d = Inr (found, d') \<Longrightarrow> tidy d \<Longrightarrow> tidy d'"
  using findProvider_tidy by (auto simp: findInput_def split: option.splits sum.splits)

lemma provide_tidy:
  assumes "provide a f tags d = Inr d'" and "tidy d"
  shows "tidy d'"
proof -
  from assms(1) obtain self self' d0 where self: "actionHeap d a = Some self"
    and d': "d' = setAction a self' d0" and st: "state self' = state self"
      "asyncCallbackOp self' = asyncCallbackOp self"
    and d0: "actionHeap d0 = actionHeap d" "activeActions d0 = activeActions d"
    by (auto simp: provide_def split: option.splits sum.splits if_splits)
  have "tidy d0" by (rule tidy_same[OF assms(2)]) (simp_all add: d0)
  then have "tidy (d0\<lparr>actionHeap := (actionHeap d0)(a := None)\<rparr>)" by (rule tidy_exceptI)
  moreover have "state self' = RUNNING \<longrightarrow>
      a \<in> set (activeActions d0) \<and> asyncCallbackOp self' \<noteq> Some DoneCallback"
    using assms(2) self st d0 unfolding tidy_def by auto
  ultimately show ?thesis unfolding d' by (rule tidy_setAction)
qed

lemma newOutput_tidy:
  assumes "newOutput a path d = Inr (f, d')" and "tidy d"
  shows "tidy d'"
proof -
  from assms(1) obtain d1 self1 where d1: "provide a (relative (tmp d) path) [DEFAULT_TAG] d = Inr d1"
    and s1: "actionHeap d1 a = Some self1"
    and d': "d' = setAction a (self1\<lparr>outputs := outputs self1 @ [relative (tmp d) path]\<rparr>) d1"
    by (auto simp: newOutput_def split: option.splits sum.splits)
  have t1: "tidy d1" using provide_tidy[OF d1 assms(2)] .
  then have "tidy (d1\<lparr>actionHeap := (actionHeap d1)(a := None)\<rparr>)" by (rule tidy_exceptI)
  moreover have "state (self1\<lparr>outputs := outputs self1 @ [relative (tmp d) path]\<rparr>) = RUNNING \<longrightarrow>
      a \<in> set (activeActions d1)
      \<and> asyncCallbackOp (self1\<lparr>outputs := outputs self1 @ [relative (tmp d) path]\<rparr>)
          \<noteq> Some DoneCallback"
    using t1 s1 unfolding tidy_def by auto
  ultimately show ?thesis unfolding d' by (rule tidy_setAction)
qed

lemma simple_tidy:
  "log a text d = Inr d' \<Longrightarrow> tidy d \<Longrightarrow> tidy d'"
  "passed a d = Inr d' \<Longrightarrow> tidy d \<Longrightarrow> tidy d'"
  "failed a d = Inr d' \<Longrightarrow> tidy d \<Longrightarrow> tidy d'"
  "noMoreEvents a d = Inr d' \<Longrightarrow> tidy d \<Longrightarrow> tidy d'"
  "StartCallback_run a handle d = Inr d' \<Longrightarrow> tidy d \<Longrightarrow> tidy d'"
  by (auto simp: log_def passed_def failed_def noMoreEvents_def StartCallback_run_def tidy_def
      setAction_def queueDoneCallback_def split: option.splits sum.splits if_splits)

lemma reachable_tidy: "reachable d \<Longrightarrow> tidy d"
proof (induction rule: reachable.induct)
  case (constructed srcRoot tmpRoot dsk maxConcurrent)
  show ?case by (simp add: tidy_def newDriver_def)
next
  case (factory d factory)
  then show ?case by (simp add: tidy_def addActionFactory_def)
next
  case (started d fuel throws root d')
  then show ?case using Driver_start_tidy by blast
next
  case (startCallback d a self handle d')
  then show ?case using simple_tidy(5) by blast
next
  case (doneCallback d a self fuel throws d')
  then show ?case using DoneCallback_run_tidy by blast
next
  case (called_findProvider d a tag found d')
  then show ?case using findProvider_tidy by blast
next
  case (called_findInput d a path found d')
  then show ?case using findInput_tidy by blast
next
  case (called_provide d a f tags d')
  then show ?case using provide_tidy by blast
next
  case (called_newOutput d a path f d')
  then show ?case using newOutput_tidy by blast
next
  case (called_log d a msg d')
  then show ?case using simple_tidy(1) by blast
next
  case (called_addActionType d a factory d')
  then show ?case using addActionType_mends mends_tidy by blast
next
  case (called_passed d a d')
  then show ?case using simple_tidy(2) by blast
next
  case (called_failed d a d')
  then show ?case using simple_tidy(3) by blast
next
  case (noMoreEvents d a d')
  then show ?case using simple_tidy(4) by blast
next
  case (threw d fuel a t d')
  then show ?case using threwException_tidy tidy_exceptI by blast
next
  case (diskChanged d dsk)
  then show ?case by (simp add: tidy_def)
qed

lemma tidy_running:
  assumes "tidy d"
  shows "runningActions d \<subseteq> set (activeActions d)"
    and "card (runningActions d) \<le> length (activeActions d)"
proof -
  show sub: "runningActions d \<subseteq> set (activeActions d)"
    using assms unfolding tidy_def runningActions_def by blast
  have "card (runningActions d) \<le> card (set (activeActions d))"
    by (rule card_mono[OF _ sub]) simp
  also have "\<dots> \<le> length (activeActions d)" by (rule card_length)
  finally show "card (runningActions d) \<le> length (activeActions d)" .
qed

lemma fresh_start:
  "\<exists>d'. Driver_start 0 (\<lambda>a. None) exampleTree freshDriver = Some (Inr d')
      \<and> activeActions d' = [3] \<and> pendingActions d' = [1] \<and> maxConcurrentActions d' = 1"
  by (simp add: Driver_start_def scanSourceTree_def exampleTree_def freshDriver_def
      exampleFactory_def addActionFactory_def newDriver_def registerRoot_def registerProvider_def
      registerTag_def resetDependentActions_def fireTriggers_def queueNewAction_def
      startSomeActions_def startFront_def start_def setAction_def andThen_def
      fileContentHash_def beginTask_def setState_def canonicalName_def)

text \<open>
  C7. In every state that the driver reaches, the active set holds at most
  \<open>maxConcurrentActions\<close> actions (none when the bound is below zero), every action whose
  state is RUNNING is in the active set, and so at most that many actions have state
  RUNNING. \<open>startSomeActions\<close> keeps the bound and changes nothing when the active set is
  not strictly below it; \<open>returned\<close>, \<open>reset\<close> and \<open>threwException\<close> only take actions out of
  the active set. The steps that take fuel return when the fuel exceeds the size of the
  active and the completed set together.
\<close>

theorem active_set_bounded:
  "(reachable d \<longrightarrow>
      int (length (activeActions d)) \<le> max 0 (maxConcurrentActions d)
      \<and> runningActions d \<subseteq> set (activeActions d)
      \<and> int (card (runningActions d)) \<le> max 0 (maxConcurrentActions d))
   \<and> (\<forall>d'. startSomeActions fuel throws d = Some (Inr d') \<longrightarrow>
         (bounded d \<longrightarrow> bounded d')
         \<and> (maxConcurrentActions d \<le> int (length (activeActions d)) \<longrightarrow> d' = d))
   \<and> (\<forall>d'. returned fuel a d = Some (Inr d') \<or> reset fuel a d = Some (Inr d')
           \<or> threwException fuel a t d = Some (Inr d') \<longrightarrow> calm d d')
   \<and> (unsettled d < fuel \<longrightarrow>
         Driver_start fuel throws root d \<noteq> None \<and> DoneCallback_run fuel throws a d \<noteq> None)"
proof (intro conjI allI impI)
  assume r: "reachable d"
  then show b: "int (length (activeActions d)) \<le> max 0 (maxConcurrentActions d)"
    using reachable_bounded by (simp add: bounded_def)
  from r have t: "tidy d" by (rule reachable_tidy)
  show "runningActions d \<subseteq> set (activeActions d)" using t by (rule tidy_running)
  have "int (card (runningActions d)) \<le> int (length (activeActions d))"
    using tidy_running(2)[OF t] by simp
  then show "int (card (runningActions d)) \<le> max 0 (maxConcurrentActions d)"
    using b by linarith
next
  fix d' assume "startSomeActions fuel throws d = Some (Inr d')" "bounded d"
  then show "bounded d'" by (rule startSomeActions_bounded)
next
  fix d' assume run: "startSomeActions fuel throws d = Some (Inr d')"
    and full: "maxConcurrentActions d \<le> int (length (activeActions d))"
  have "startLoop fuel throws rounds d = Some (Inr d)" for rounds
    using full by (cases rounds) simp_all
  then show "d' = d" using run by (simp add: startSomeActions_def)
next
  fix d' assume "returned fuel a d = Some (Inr d') \<or> reset fuel a d = Some (Inr d')
           \<or> threwException fuel a t d = Some (Inr d')"
  then show "calm d d'"
    using returned_calm reset_shrinks shrinks_calm threwException_calm by blast
next
  assume "unsettled d < fuel"
  then show "Driver_start fuel throws root d \<noteq> None" by (rule Driver_start_terminates)
next
  assume "unsettled d < fuel"
  then show "DoneCallback_run fuel throws a d \<noteq> None" by (rule DoneCallback_run_terminates)
qed

theorem active_set_bounded_witness:
  "(\<exists>d'. Driver_start 0 (\<lambda>a. None) exampleTree freshDriver = Some (Inr d')
      \<and> reachable d' \<and> activeActions d' = [3] \<and> pendingActions d' = [1]
      \<and> int (length (activeActions d')) \<le> max 0 (maxConcurrentActions d')
      \<and> runningActions d' \<subseteq> {3} \<and> int (card (runningActions d')) \<le> 1
      \<and> startSomeActions 0 (\<lambda>a. None) d' = Some (Inr d'))
   \<and> (\<exists>d'. reset (Suc (Suc 0)) 1 cascadeDriver = Some (Inr d') \<and> calm cascadeDriver d')
   \<and> unsettled freshDriver < Suc 0
   \<and> Driver_start (Suc 0) (\<lambda>a. None) exampleTree freshDriver \<noteq> None"
proof (intro conjI)
  from fresh_start obtain d' where
    d': "Driver_start 0 (\<lambda>a. None) exampleTree freshDriver = Some (Inr d')"
      "activeActions d' = [3]" "pendingActions d' = [1]" "maxConcurrentActions d' = 1"
    by blast
  have "reachable freshDriver"
    unfolding freshDriver_def by (intro reachable.factory reachable.constructed)
  then have r: "reachable d'" using d'(1) by (rule reachable.started)
  have full: "maxConcurrentActions d' \<le> int (length (activeActions d'))" using d'(2,4) by simp
  have same: "startSomeActions 0 (\<lambda>a. None) d' = Some (Inr d')"
    using full by (simp add: startSomeActions_def d'(3))
  from active_set_bounded[of d' 0 "\<lambda>a. None"] r same
  have "int (length (activeActions d')) \<le> max 0 (maxConcurrentActions d')
      \<and> runningActions d' \<subseteq> set (activeActions d')
      \<and> int (card (runningActions d')) \<le> max 0 (maxConcurrentActions d')"
    by blast
  then have "int (length (activeActions d')) \<le> max 0 (maxConcurrentActions d')
      \<and> runningActions d' \<subseteq> {3} \<and> int (card (runningActions d')) \<le> 1"
    using d'(2,4) by simp
  then show "\<exists>d'. Driver_start 0 (\<lambda>a. None) exampleTree freshDriver = Some (Inr d')
      \<and> reachable d' \<and> activeActions d' = [3] \<and> pendingActions d' = [1]
      \<and> int (length (activeActions d')) \<le> max 0 (maxConcurrentActions d')
      \<and> runningActions d' \<subseteq> {3} \<and> int (card (runningActions d')) \<le> 1
      \<and> startSomeActions 0 (\<lambda>a. None) d' = Some (Inr d')"
    using d' r same by blast
next
  from cascade_run obtain d' where d': "reset (Suc (Suc 0)) 1 cascadeDriver = Some (Inr d')"
    by blast
  from active_set_bounded[of cascadeDriver "Suc (Suc 0)" _ 1] d'
  have "calm cascadeDriver d'" by blast
  then show "\<exists>d'. reset (Suc (Suc 0)) 1 cascadeDriver = Some (Inr d') \<and> calm cascadeDriver d'"
    using d' by blast
next
  show u: "unsettled freshDriver < Suc 0"
    by (simp add: unsettled_def freshDriver_def addActionFactory_def newDriver_def)
  from active_set_bounded[of freshDriver "Suc 0" "\<lambda>a. None" _ _ exampleTree] u
  show "Driver_start (Suc 0) (\<lambda>a. None) exampleTree freshDriver \<noteq> None" by blast
qed

theorem pending_queue_discipline_witness:
  "(\<exists>d'. queueNewAction \<lparr>getVerb = ''link'', isSilent = False\<rparr> 10 cascadeDriver = Inr d'
        \<and> pendingActions d' = [11, 4])
   \<and> (\<exists>d' zs. reset (Suc (Suc 0)) 1 cascadeDriver = Some (Inr d')
        \<and> pendingActions d' = [4, 1, 3]
        \<and> pendingActions d' =
            filter (\<lambda>x. actionHeap d' x \<noteq> None) (pendingActions cascadeDriver) @ 1 # zs)
   \<and> (\<exists>d'. startSomeActions (Suc (Suc 0)) (\<lambda>a. None) cascadeDriver = Some (Inr d')
        \<and> pendingActions d' = [] \<and> activeActions d' = [3, 4])"
proof -
  let ?self = "(exampleAction DONE False)\<lparr>provisions := [10], providedTags := [[DEFAULT_TAG]]\<rparr>"
  note disc = pending_queue_discipline[where d=cascadeDriver and p=10 and A=1
      and fuel="Suc (Suc 0)" and throws="\<lambda>a. None"
      and a="\<lparr>getVerb = ''link'', isSilent = False\<rparr>"]
  have heap: "provisionHeap cascadeDriver 10 = Some \<lparr>file' = ''tmp/a.o'', contentHash = NullHash\<rparr>"
    by (simp add: cascadeDriver_def)
  have q: "allocated cascadeDriver = 11" "pendingActions cascadeDriver = [4]"
    "activeActions cascadeDriver = [3]"
    by (simp_all add: cascadeDriver_def)
  from disc heap q have 1: "\<exists>d'. queueNewAction \<lparr>getVerb = ''link'', isSilent = False\<rparr> 10 cascadeDriver
                               = Inr d' \<and> pendingActions d' = [11, 4]"
    by auto
  have self: "actionHeap cascadeDriver 1 = Some ?self" "state ?self \<noteq> PENDING"
    by (simp_all add: cascadeDriver_def exampleAction_def)
  from cascade_run obtain d' where d': "reset (Suc (Suc 0)) 1 cascadeDriver = Some (Inr d')"
    "pendingActions d' = [4, 1, 3]" "map_option state (actionHeap d' 1) = Some PENDING" by blast
  then have live: "actionHeap d' 1 \<noteq> None" by auto
  from disc cascade_placed self d'(1) live
  have 2: "\<exists>zs. pendingActions d' =
            filter (\<lambda>x. actionHeap d' x \<noteq> None) (pendingActions cascadeDriver) @ 1 # zs"
    by blast
  from disc obtain r where r: "startSomeActions (Suc (Suc 0)) (\<lambda>a. None) cascadeDriver = Some r"
    by blast
  have notInl: "r \<noteq> Inl e" for e
    using r by (auto simp: startSomeActions_def cascadeDriver_def newDriver_def startFront_def
        start_def exampleAction_def andThen_def setAction_def)
  then obtain d3 where d3: "r = Inr d3" by (cases r) auto
  from disc r d3 obtain j where j: "j \<le> length (pendingActions cascadeDriver)"
     "pendingActions d3 = drop j (pendingActions cascadeDriver)"
     "activeActions d3 = activeActions cascadeDriver @ take j (pendingActions cascadeDriver)"
     "\<not> (int (length (activeActions d3)) < maxConcurrentActions d3 \<and> pendingActions d3 \<noteq> [])"
    by auto
  have m: "maxConcurrentActions d3 = 2"
    using r d3 by (auto simp: startSomeActions_def cascadeDriver_def newDriver_def startFront_def
        start_def exampleAction_def andThen_def setAction_def)
  have "j = 1" using j m q by (cases j) auto
  then have 3: "pendingActions d3 = [] \<and> activeActions d3 = [3, 4]" using j q by simp
  show ?thesis using 1 2 3 d' r d3 by blast
qed

subsection \<open>Resetting the dependents of a tag\<close>

lemma cascadeClosed_iff:
  "cascadeClosed d C Ps \<longleftrightarrow>
     (\<forall>a \<in> C. \<forall>r. actionHeap d a = Some r \<longrightarrow> set (provisions r) \<subseteq> Ps)
     \<and> (\<forall>t a p. (t, a, Some p) \<in> set (dependencyTable d) \<longrightarrow> p \<in> Ps \<longrightarrow> a \<in> C)
     \<and> (\<forall>p a. (p, a) \<in> set (actionsByTrigger d) \<longrightarrow> p \<in> Ps \<longrightarrow> a \<in> C)"
  unfolding cascadeClosed_def by (auto split: option.splits)

lemma keepsClosed_refl: "reflp (keepsClosed C Ps)" by (simp add: reflp_def keepsClosed_def)

lemma keepsClosed_trans: "transp (keepsClosed C Ps)" by (auto simp: transp_def keepsClosed_def)

lemma keepsClosed_requeue:
  assumes self: "actionHeap d this = Some self" and rq: "requeue this self d = Inr d1"
  shows "keepsClosed C Ps d d1"
  unfolding keepsClosed_def
proof
  assume c: "cascadeClosed d C Ps"
  have t: "dependencyTable d1 = dependencyTable d" "actionsByTrigger d1 = actionsByTrigger d"
    using requeue_cases[OF rq] by (auto simp: setAction_def)
  have "\<forall>a \<in> C. \<forall>r. actionHeap d1 a = Some r \<longrightarrow> set (provisions r) \<subseteq> Ps"
  proof (intro ballI allI impI)
    fix a r assume a: "a \<in> C" "actionHeap d1 a = Some r"
    show "set (provisions r) \<subseteq> Ps"
    proof (cases "a = this")
      case True
      then have "provisions r = provisions self" using requeue_heap(1)[OF rq] a(2) by auto
      then show ?thesis using c a(1) self True unfolding cascadeClosed_iff by auto
    next
      case False
      then have "actionHeap d a = Some r" using requeue_heap(2)[OF rq] a(2) by auto
      then show ?thesis using c a(1) unfolding cascadeClosed_iff by blast
    qed
  qed
  then show "cascadeClosed d1 C Ps" using c unfolding cascadeClosed_iff t by blast
qed

lemma keepsClosed_delete:
  "keepsClosed C Ps d (deleteActionDriver x (d\<lparr>pendingActions := ps\<rparr>))"
  unfolding keepsClosed_def cascadeClosed_iff by (auto simp: deleteActionDriver_def)

lemma keepsClosed_erase:
  "keepsClosed C Ps d (d\<lparr>actionsByTrigger := filter P (actionsByTrigger d)\<rparr>)"
  "keepsClosed C Ps d (d\<lparr>tagTable := tt, dependencyTable := filter Q (dependencyTable d)\<rparr>)"
  unfolding keepsClosed_def cascadeClosed_iff by auto

lemma keepsClosed_forget:
  assumes "forget this d = Some (Inr d')"
  shows "keepsClosed C Ps d d'"
proof -
  from forget_cases[OF assms] obtain self where
    s: "actionHeap d this = Some self"
       "d' = setAction this (self\<lparr>provisions := [], providedTags := [], outputs := []\<rparr>)
                (d\<lparr>dependencyTable := filter (\<lambda>row. fst (snd row) \<noteq> this) (dependencyTable d),
                   provisionHeap := freeProvisions (provisions self) (provisionHeap d)\<rparr>)"
    by blast
  show ?thesis unfolding keepsClosed_def cascadeClosed_iff s(2) setAction_def by auto
qed

lemma reset_keepsClosed: "reset fuel this d = Some (Inr d') \<Longrightarrow> keepsClosed C Ps d d'"
  apply (erule reset_rel[where R="keepsClosed C Ps", OF keepsClosed_refl keepsClosed_trans, rotated -1])
  subgoal by (blast intro: keepsClosed_requeue)
  subgoal by (rule keepsClosed_delete)
  subgoal by (rule keepsClosed_erase)
  subgoal by (rule keepsClosed_erase)
  subgoal by (blast intro: keepsClosed_forget)
  done

lemma reset_closed:
  "reset fuel this d = Some (Inr d') \<Longrightarrow> cascadeClosed d C Ps \<Longrightarrow> cascadeClosed d' C Ps"
  using reset_keepsClosed unfolding keepsClosed_def by blast

lemma untouched_refl: "untouched C d d" by (simp add: untouched_def)

lemma untouched_trans: "untouched C a b \<Longrightarrow> untouched C b c \<Longrightarrow> untouched C a c"
  unfolding untouched_def by simp

lemma untouched_requeue:
  assumes rq: "requeue this self d = Inr d1" and inC: "this \<in> C"
  shows "untouched C d d1"
  unfolding untouched_def
proof (intro allI impI)
  fix x assume x: "x \<notin> C"
  then have ne: "x \<noteq> this" using inC by blast
  have h: "actionHeap d1 x = actionHeap d x" using requeue_heap(2)[OF rq] ne by blast
  have q: "x \<in> set (pendingActions d1) \<longleftrightarrow> x \<in> set (pendingActions d)"
       "x \<in> set (activeActions d1) \<longleftrightarrow> x \<in> set (activeActions d)"
       "x \<in> set (completedActionPtrs d1) \<longleftrightarrow> x \<in> set (completedActionPtrs d)"
    using requeue_cases[OF rq] ne by (auto simp: setAction_def)
  show "actionHeap d1 x = actionHeap d x
        \<and> (x \<in> set (pendingActions d1) \<longleftrightarrow> x \<in> set (pendingActions d))
        \<and> (x \<in> set (activeActions d1) \<longleftrightarrow> x \<in> set (activeActions d))
        \<and> (x \<in> set (completedActionPtrs d1) \<longleftrightarrow> x \<in> set (completedActionPtrs d))"
    using h q by blast
qed

lemma in_set_releaseLast: "y \<noteq> x \<Longrightarrow> y \<in> set (releaseLast x xs) \<longleftrightarrow> y \<in> set xs"
  by (simp add: releaseLast_def)

lemma untouched_delete:
  assumes "x \<in> C"
  shows "untouched C d (deleteActionDriver x (d\<lparr>pendingActions := releaseLast x (pendingActions d)\<rparr>))"
  unfolding untouched_def using assms
  by (auto simp: deleteActionDriver_def in_set_releaseLast)

lemma untouched_forget:
  assumes "forget this d = Some (Inr d')" and "this \<in> C"
  shows "untouched C d d'"
proof -
  from forget_cases[OF assms(1)] obtain self where
    s: "d' = setAction this (self\<lparr>provisions := [], providedTags := [], outputs := []\<rparr>)
                (d\<lparr>dependencyTable := filter (\<lambda>row. fst (snd row) \<noteq> this) (dependencyTable d),
                   provisionHeap := freeProvisions (provisions self) (provisionHeap d)\<rparr>)"
    by blast
  show ?thesis unfolding untouched_def s setAction_def using assms(2) by auto
qed

lemma within_refl: "reflp (within C Ps)"
  by (simp add: reflp_def within_def untouched_refl)

lemma within_trans: "transp (within C Ps)"
  unfolding transp_def within_def using untouched_trans by blast

lemma within_transD: "within C Ps a b \<Longrightarrow> within C Ps b c \<Longrightarrow> within C Ps a c"
  using within_trans by (blast dest: transpD)

lemma deleteTriggered_within:
  assumes rec: "\<And>s s'. reset fuel x s = Some (Inr s') \<Longrightarrow> within C Ps s s'"
    and x: "x \<in> C" and run: "deleteTriggered (reset fuel) x s = Some (Inr s')"
  shows "within C Ps s s'"
proof -
  from run obtain s1 where s1: "reset fuel x s = Some (Inr s1)"
    "s' = (if x \<in> set (pendingActions s1)
           then deleteActionDriver x (s1\<lparr>pendingActions := releaseLast x (pendingActions s1)\<rparr>)
           else s1)"
    by (auto simp: deleteTriggered_def andThen_Inr)
  have "within C Ps s1 s'"
    unfolding within_def s1(2)
    using untouched_delete[OF x] keepsClosed_delete[of C Ps s1 x] untouched_refl
    by (auto simp: keepsClosed_def)
  then show ?thesis using within_transD[OF rec[OF s1(1)]] by blast
qed

lemma resetProvision_within:
  assumes rec: "\<And>x s s'. x \<in> C \<Longrightarrow> reset fuel x s = Some (Inr s') \<Longrightarrow> within C Ps s s'"
    and p: "p \<in> Ps" and run: "resetProvision (reset fuel) this p s = Some (Inr s')"
  shows "within C Ps s s'"
  unfolding within_def
proof
  assume c: "cascadeClosed s C Ps"
  from resetProvision_parts[OF run] obtain s1 s2 where
    s1: "forEach (reset fuel) (searchProvision (dependencyTable s) p) s = Some (Inr s1)" and
    s2: "forEach (deleteTriggered (reset fuel)) (equal_range (actionsByTrigger s1) p)
           (s1\<lparr>actionsByTrigger := filter (\<lambda>row. fst row \<noteq> p) (actionsByTrigger s1)\<rparr>)
         = Some (Inr s2)" and
    s': "s' = s2\<lparr>tagTable := filter (\<lambda>row. snd row \<noteq> p) (tagTable s2),
                 dependencyTable := filter (\<lambda>row. snd (snd row) \<noteq> Some p) (dependencyTable s2)\<rparr>"
    by blast
  have deps: "set (searchProvision (dependencyTable s) p) \<subseteq> C"
    using c p unfolding cascadeClosed_iff searchProvision_def by force
  have "\<forall>x \<in> set (searchProvision (dependencyTable s) p). \<forall>s s'.
          reset fuel x s = Some (Inr s') \<longrightarrow> within C Ps s s'"
    using rec deps by blast
  from forEach_rel[where R="within C Ps", OF within_refl within_trans this s1] c
  have c1: "cascadeClosed s1 C Ps" and u1: "untouched C s s1" by (auto simp: within_def)
  let ?e = "s1\<lparr>actionsByTrigger := filter (\<lambda>row. fst row \<noteq> p) (actionsByTrigger s1)\<rparr>"
  have trig: "set (equal_range (actionsByTrigger s1) p) \<subseteq> C"
    using c1 p unfolding cascadeClosed_iff equal_range_def by force
  have ce: "cascadeClosed ?e C Ps" using c1 keepsClosed_erase(1)[of C Ps s1]
    by (simp add: keepsClosed_def)
  have ue: "untouched C s1 ?e" by (simp add: untouched_def)
  have "\<forall>x \<in> set (equal_range (actionsByTrigger s1) p). \<forall>s s'.
          deleteTriggered (reset fuel) x s = Some (Inr s') \<longrightarrow> within C Ps s s'"
    using deleteTriggered_within[where fuel=fuel and C=C and Ps=Ps] rec trig by blast
  from forEach_rel[where R="within C Ps", OF within_refl within_trans this s2] ce
  have c2: "cascadeClosed s2 C Ps" and u2: "untouched C ?e s2" by (auto simp: within_def)
  have c': "cascadeClosed s' C Ps"
    unfolding s' using c2 keepsClosed_erase(2)[of C Ps s2] by (simp add: keepsClosed_def)
  have u': "untouched C s2 s'" unfolding s' by (simp add: untouched_def)
  show "cascadeClosed s' C Ps \<and> untouched C s s'"
    using c' untouched_trans[OF untouched_trans[OF untouched_trans[OF u1 ue] u2] u'] by blast
qed

lemma reset_within:
  "this \<in> C \<Longrightarrow> reset fuel this d = Some (Inr d') \<Longrightarrow> within C Ps d d'"
proof (induction fuel arbitrary: this d d')
  case 0
  then show ?case by simp
next
  case (Suc fuel)
  from reset_live[OF Suc.prems(2)] obtain self where self: "actionHeap d this = Some self" by blast
  show ?case
  proof (cases "state self = PENDING")
    case True
    then have "d' = d" using Suc.prems(2) self by simp
    then show ?thesis using within_refl by (simp add: reflpD)
  next
    case False
    from reset_parts[OF Suc.prems(2) self False] obtain d1 d2 where
      d1: "requeue this self d = Inr d1" and
      d2: "forEach (resetProvision (reset fuel) this) (provisions self) d1 = Some (Inr d2)" and
      d3: "forget this d2 = Some (Inr d')" by blast
    show ?thesis
      unfolding within_def
    proof
      assume c: "cascadeClosed d C Ps"
      have sub: "set (provisions self) \<subseteq> Ps"
        using c self Suc.prems(1) unfolding cascadeClosed_iff by blast
      have c1: "cascadeClosed d1 C Ps"
        using keepsClosed_requeue[OF self d1, of C Ps] c by (simp add: keepsClosed_def)
      have u1: "untouched C d d1" using untouched_requeue[OF d1 Suc.prems(1)] .
      have "\<forall>p \<in> set (provisions self). \<forall>s s'.
              resetProvision (reset fuel) this p s = Some (Inr s') \<longrightarrow> within C Ps s s'"
        using resetProvision_within[where fuel=fuel and C=C and Ps=Ps] Suc.IH sub by blast
      from forEach_rel[where R="within C Ps", OF within_refl within_trans this d2] c1
      have c2: "cascadeClosed d2 C Ps" and u2: "untouched C d1 d2" by (auto simp: within_def)
      have c': "cascadeClosed d' C Ps"
        using keepsClosed_forget[OF d3, of C Ps] c2 by (simp add: keepsClosed_def)
      have u': "untouched C d2 d'" using untouched_forget[OF d3 Suc.prems(1)] .
      show "cascadeClosed d' C Ps \<and> untouched C d d'"
        using c' untouched_trans[OF untouched_trans[OF u1 u2] u'] by blast
    qed
  qed
qed

lemma forEach_reset_pending:
  "forEach (reset fuel) xs d = Some (Inr d') \<Longrightarrow>
     \<forall>x \<in> set xs. \<forall>r. actionHeap d' x = Some r \<longrightarrow> state r = PENDING"
proof (induction xs arbitrary: d)
  case Nil
  then show ?case by simp
next
  case (Cons x xs)
  from Cons.prems obtain d1 where d1: "reset fuel x d = Some (Inr d1)"
    "forEach (reset fuel) xs d1 = Some (Inr d')"
    by (auto simp: andThen_Inr)
  have "\<forall>y \<in> set xs. \<forall>s s'. reset fuel y s = Some (Inr s') \<longrightarrow> settles s s'"
    using reset_settles by blast
  from forEach_rel[where R=settles, OF settles_refl settles_trans this d1(2)]
  have st: "settles d1 d'" .
  have "state r = PENDING" if r: "actionHeap d' x = Some r" for r
  proof -
    from st r obtain r1 where r1: "actionHeap d1 x = Some r1" unfolding settles_def by blast
    then have "state r1 = PENDING" using reset_makes_pending[OF d1(1)] by blast
    then show ?thesis using st r1 r unfolding settles_def by blast
  qed
  then show ?case using Cons.IH[OF d1(2)] by simp
qed

lemma actionsToReset_set:
  "actionsToReset d tag rows = Inr acts \<Longrightarrow>
     acts = map (\<lambda>row. fst (snd row))
              (filter (\<lambda>row. fst row = tag
                         \<and> choosePreferredProvider (fst (snd row)) tag d \<noteq> Inr (snd (snd row)))
                 rows)"
proof (induction rows arbitrary: acts)
  case Nil
  then show ?case by simp
next
  case (Cons row rows)
  show ?case
  proof (cases "fst row = tag")
    case False
    then show ?thesis using Cons by simp
  next
    case True
    from Cons.prems True obtain provider rest where
      p: "choosePreferredProvider (fst (snd row)) tag d = Inr provider" and
      r: "actionsToReset d tag rows = Inr rest" and
      a: "acts = (if provider \<noteq> snd (snd row) then fst (snd row) # rest else rest)"
      by (auto split: sum.splits)
    show ?thesis using Cons.IH[OF r] a p True by simp
  qed
qed

lemma loses_refl: "reflp loses" by (simp add: reflp_def loses_def)

lemma loses_trans: "transp loses" by (auto simp: transp_def loses_def)

lemma reset_loses: "reset fuel this d = Some (Inr d') \<Longrightarrow> loses d d'"
  apply (erule reset_rel[where R=loses, OF loses_refl loses_trans, rotated -1])
  subgoal for this self d d1 by (drule requeue_cases) (auto simp: loses_def setAction_def)
  subgoal by (simp add: loses_def deleteActionDriver_def)
  subgoal by (auto simp: loses_def)
  subgoal by (auto simp: loses_def)
  subgoal for this d d' by (drule forget_cases) (auto simp: loses_def setAction_def)
  done

lemma resetProvision_loses:
  "resetProvision (reset fuel) this p d = Some (Inr d') \<Longrightarrow> loses d d'"
  apply (erule resetProvision_rel[where R=loses and resetRec="reset fuel",
                 OF loses_refl loses_trans, rotated -1])
  subgoal by (blast intro: reset_loses)
  subgoal by (simp add: loses_def deleteActionDriver_def)
  subgoal by (auto simp: loses_def)
  subgoal by (auto simp: loses_def)
  done

lemma loses_erased: "loses d d' \<Longrightarrow> erased P d \<Longrightarrow> erased P d'"
  unfolding loses_def erased_def by (meson image_mono subsetD)

lemma settles_idle: "settles d d' \<Longrightarrow> idle B d \<Longrightarrow> idle B d'"
  unfolding settles_def idle_def by (auto split: option.splits)

lemma reset_idle: "reset fuel x d = Some (Inr d') \<Longrightarrow> idle B d \<Longrightarrow> idle B d'"
  using reset_settles settles_idle by blast

lemma reset_idle_self: "reset fuel x d = Some (Inr d') \<Longrightarrow> idle x d'"
  using reset_makes_pending unfolding idle_def by (auto split: option.splits)

lemma forEach_reset_idle:
  assumes "forEach (reset fuel) xs d = Some (Inr d')"
  shows "(\<forall>x \<in> set xs. idle x d') \<and> (idle B d \<longrightarrow> idle B d')"
proof -
  have "\<forall>x \<in> set xs. \<forall>r. actionHeap d' x = Some r \<longrightarrow> state r = PENDING"
    using forEach_reset_pending[OF assms] .
  then have 1: "\<forall>x \<in> set xs. idle x d'" by (auto simp: idle_def split: option.splits)
  have "\<forall>y \<in> set xs. \<forall>s s'. reset fuel y s = Some (Inr s') \<longrightarrow> settles s s'"
    using reset_settles by blast
  from forEach_rel[where R=settles, OF settles_refl settles_trans this assms]
  have "settles d d'" .
  then show ?thesis using 1 settles_idle by blast
qed


lemma deleteTriggered_parts:
  assumes "deleteTriggered (reset fuel) x d = Some (Inr d')"
  shows "\<exists>d1. reset fuel x d = Some (Inr d1)
           \<and> d' = (if x \<in> set (pendingActions d1)
                   then deleteActionDriver x (d1\<lparr>pendingActions := releaseLast x (pendingActions d1)\<rparr>)
                   else d1)"
  using assms by (auto simp: deleteTriggered_def andThen_Inr)

lemma delete_idle:
  "idle B d \<Longrightarrow> idle B (deleteActionDriver x (d\<lparr>pendingActions := ps\<rparr>))"
  by (auto simp: idle_def deleteActionDriver_def split: option.splits)

lemma delete_sought:
  "sought P B d \<Longrightarrow> sought P B (deleteActionDriver x (d\<lparr>pendingActions := ps\<rparr>))"
  unfolding sought_def using delete_idle[of B d x ps] by (auto simp: deleteActionDriver_def)

lemma deleteTriggered_sought:
  assumes rec: "\<forall>y s s'. sought P B s \<longrightarrow> reset fuel y s = Some (Inr s') \<longrightarrow> sought P B s'"
    and run: "deleteTriggered (reset fuel) x d = Some (Inr d')" and k: "sought P B d"
  shows "sought P B d'"
proof -
  from deleteTriggered_parts[OF run] obtain d1 where d1: "reset fuel x d = Some (Inr d1)"
    "d' = (if x \<in> set (pendingActions d1)
           then deleteActionDriver x (d1\<lparr>pendingActions := releaseLast x (pendingActions d1)\<rparr>)
           else d1)"
    by blast
  have "sought P B d1" using rec k d1(1) by blast
  then show ?thesis unfolding d1(2) using delete_sought by simp
qed

lemma deleteTriggered_idle:
  assumes "deleteTriggered (reset fuel) x d = Some (Inr d')" and "idle B d"
  shows "idle B d'"
proof -
  from deleteTriggered_parts[OF assms(1)] obtain d1 where d1: "reset fuel x d = Some (Inr d1)"
    "d' = (if x \<in> set (pendingActions d1)
           then deleteActionDriver x (d1\<lparr>pendingActions := releaseLast x (pendingActions d1)\<rparr>)
           else d1)"
    by blast
  have "idle B d1" using reset_idle[OF d1(1) assms(2)] .
  then show ?thesis unfolding d1(2) using delete_idle by simp
qed

lemma resetProvision_sought:
  assumes rec: "\<forall>y s s'. sought P B s \<longrightarrow> reset fuel y s = Some (Inr s') \<longrightarrow> sought P B s'"
    and run: "resetProvision (reset fuel) this p d = Some (Inr d')" and k: "sought P B d"
  shows "sought P B d'"
proof -
  from resetProvision_parts[OF run] obtain d1 d2 where
    d1: "forEach (reset fuel) (searchProvision (dependencyTable d) p) d = Some (Inr d1)" and
    d2: "forEach (deleteTriggered (reset fuel)) (equal_range (actionsByTrigger d1) p)
           (d1\<lparr>actionsByTrigger := filter (\<lambda>row. fst row \<noteq> p) (actionsByTrigger d1)\<rparr>)
         = Some (Inr d2)" and
    d': "d' = d2\<lparr>tagTable := filter (\<lambda>row. snd row \<noteq> p) (tagTable d2),
                 dependencyTable := filter (\<lambda>row. snd (snd row) \<noteq> Some p) (dependencyTable d2)\<rparr>"
    by blast
  let ?e = "d1\<lparr>actionsByTrigger := filter (\<lambda>row. fst row \<noteq> p) (actionsByTrigger d1)\<rparr>"
  show ?thesis
  proof (cases "p = P")
    case True
    have "idle B d1"
    proof (cases "idle B d")
      case True
      then show ?thesis using forEach_reset_idle[OF d1] by blast
    next
      case False
      then obtain t where "(t, B, Some P) \<in> set (dependencyTable d)" using k by (auto simp: sought_def)
      then have "B \<in> set (searchProvision (dependencyTable d) p)"
        using \<open>p = P\<close> by (force simp: searchProvision_def)
      then show ?thesis using forEach_reset_idle[OF d1] by blast
    qed
    then have "idle B ?e" by (simp add: idle_def)
    moreover have "\<forall>x \<in> set (equal_range (actionsByTrigger d1) p). \<forall>s s'.
        idle B s \<longrightarrow> deleteTriggered (reset fuel) x s = Some (Inr s') \<longrightarrow> idle B s'"
      using deleteTriggered_idle by blast
    ultimately have "idle B d2" using forEach_inv[where I="idle B", OF _ _ d2] by blast
    then show ?thesis unfolding d' by (simp add: sought_def idle_def)
  next
    case False
    have "\<forall>x \<in> set (searchProvision (dependencyTable d) p). \<forall>s s'.
        sought P B s \<longrightarrow> reset fuel x s = Some (Inr s') \<longrightarrow> sought P B s'"
      using rec by blast
    then have "sought P B d1" using forEach_inv[where I="sought P B", OF _ k d1] by blast
    then have "sought P B ?e" by (simp add: sought_def idle_def)
    moreover have "\<forall>x \<in> set (equal_range (actionsByTrigger d1) p). \<forall>s s'.
        sought P B s \<longrightarrow> deleteTriggered (reset fuel) x s = Some (Inr s') \<longrightarrow> sought P B s'"
      using deleteTriggered_sought[OF rec] by blast
    ultimately have "sought P B d2" using forEach_inv[where I="sought P B", OF _ _ d2] by blast
    then show ?thesis unfolding d' using False by (auto simp: sought_def idle_def)
  qed
qed

lemma reset_sought:
  "reset fuel x d = Some (Inr d') \<Longrightarrow> sought P B d \<Longrightarrow> sought P B d'"
proof (induction fuel arbitrary: x d d')
  case 0
  then show ?case by simp
next
  case (Suc fuel)
  from reset_live[OF Suc.prems(1)] obtain self where self: "actionHeap d x = Some self" by blast
  show ?case
  proof (cases "state self = PENDING")
    case True
    then show ?thesis using Suc.prems self by simp
  next
    case False
    from reset_parts[OF Suc.prems(1) self False] obtain d1 d2 where
      d1: "requeue x self d = Inr d1" and
      d2: "forEach (resetProvision (reset fuel) x) (provisions self) d1 = Some (Inr d2)" and
      d3: "forget x d2 = Some (Inr d')" by blast
    have dt1: "dependencyTable d1 = dependencyTable d"
      using requeue_cases[OF d1] by (auto simp: setAction_def)
    have "idle B d \<Longrightarrow> idle B d1" using settles_idle[OF settles_requeue[OF self d1]] by blast
    then have k1: "sought P B d1" using Suc.prems(2) dt1 by (auto simp: sought_def)
    have x1: "idle x d1" using requeue_heap[OF d1] by (auto simp: idle_def)
    have rec: "\<forall>y s s'. sought P B s \<longrightarrow> reset fuel y s = Some (Inr s') \<longrightarrow> sought P B s'"
      using Suc.IH by blast
    have "\<forall>p \<in> set (provisions self). \<forall>s s'. sought P B s \<longrightarrow>
            resetProvision (reset fuel) x p s = Some (Inr s') \<longrightarrow> sought P B s'"
      using resetProvision_sought[OF rec] by blast
    then have k2: "sought P B d2" using forEach_inv[where I="sought P B", OF _ k1 d2] by blast
    have "settles d1 d2"
      using forEach_rel[where R=settles, OF settles_refl settles_trans _ d2] resetProvision_settles
      by blast
    then have x2: "idle x d2" using settles_idle x1 by blast
    from forget_cases[OF d3] obtain self2 where
      s2: "actionHeap d2 x = Some self2"
          "d' = setAction x (self2\<lparr>provisions := [], providedTags := [], outputs := []\<rparr>)
                (d2\<lparr>dependencyTable := filter (\<lambda>row. fst (snd row) \<noteq> x) (dependencyTable d2),
                    provisionHeap := freeProvisions (provisions self2) (provisionHeap d2)\<rparr>)"
      by blast
    have keep: "idle y d2 \<Longrightarrow> idle y d'" for y
      unfolding s2(2) using s2(1) by (auto simp: idle_def setAction_def split: option.splits)
    show ?thesis
    proof (cases "idle B d2")
      case True
      then show ?thesis using keep by (simp add: sought_def)
    next
      case False
      then obtain t where row: "(t, B, Some P) \<in> set (dependencyTable d2)"
        using k2 by (auto simp: sought_def)
      have "B \<noteq> x" using False x2 by auto
      then have "(t, B, Some P) \<in> set (dependencyTable d')" using row unfolding s2(2)
        by (simp add: setAction_def)
      then show ?thesis by (auto simp: sought_def)
    qed
  qed
qed


lemma resetProvision_erased:
  assumes "resetProvision (reset fuel) this p d = Some (Inr d')"
  shows "erased p d'"
proof -
  from resetProvision_parts[OF assms] obtain d2 where
    d': "d' = d2\<lparr>tagTable := filter (\<lambda>row. snd row \<noteq> p) (tagTable d2),
                 dependencyTable := filter (\<lambda>row. snd (snd row) \<noteq> Some p) (dependencyTable d2)\<rparr>"
    by blast
  have "p \<notin> fst ` set (actionsByTrigger d')"
    using resetProvision_erases[OF assms] by force
  moreover have "Some p \<notin> (\<lambda>row. snd (snd row)) ` set (dependencyTable d')"
    unfolding d' by auto
  ultimately show ?thesis by (simp add: erased_def)
qed

lemma forEach_resetProvision_erased:
  assumes "forEach (resetProvision (reset fuel) this) ps d = Some (Inr d')" and "P \<in> set ps"
  shows "erased P d'"
  using assms
proof (induction ps arbitrary: d)
  case Nil
  then show ?case by simp
next
  case (Cons p ps)
  from Cons.prems(1) obtain d1 where d1: "resetProvision (reset fuel) this p d = Some (Inr d1)"
    "forEach (resetProvision (reset fuel) this) ps d1 = Some (Inr d')"
    by (auto simp: andThen_Inr)
  show ?case
  proof (cases "P \<in> set ps")
    case True
    then show ?thesis using Cons.IH[OF d1(2)] by blast
  next
    case False
    then have "p = P" using Cons.prems(2) by simp
    then have "erased P d1" using resetProvision_erased[OF d1(1)] by simp
    moreover have "loses d1 d'"
      using forEach_rel[where R=loses, OF loses_refl loses_trans _ d1(2)] resetProvision_loses
      by blast
    ultimately show ?thesis using loses_erased by blast
  qed
qed

lemma reset_erases:
  assumes run: "reset fuel a d = Some (Inr d')" and i: "intact a P d"
  shows "erased P d'"
proof -
  from i obtain self where self: "actionHeap d a = Some self" "state self \<noteq> PENDING"
      "P \<in> set (provisions self)"
    by (auto simp: intact_def split: option.splits)
  from run obtain n where n: "fuel = Suc n" by (cases fuel) auto
  from reset_parts[OF run[unfolded n] self(1,2)] obtain d1 d2 where
    d2: "forEach (resetProvision (reset n) a) (provisions self) d1 = Some (Inr d2)" and
    d3: "forget a d2 = Some (Inr d')" by blast
  have "erased P d2" using forEach_resetProvision_erased[OF d2 self(3)] .
  moreover have "loses d2 d'" using forget_cases[OF d3] by (auto simp: loses_def setAction_def)
  ultimately show ?thesis using loses_erased by blast
qed

lemma intact_same:
  "actionHeap d' a = actionHeap d a \<Longrightarrow> intact a P d \<Longrightarrow> intact a P d'"
  by (simp add: intact_def)

lemma deleteTriggered_kept:
  assumes rec: "\<forall>y s s'. intact a P s \<or> erased P s \<longrightarrow> reset fuel y s = Some (Inr s') \<longrightarrow>
                  (intact a P s' \<or> erased P s') \<and> (y = a \<longrightarrow> erased P s')"
    and run: "deleteTriggered (reset fuel) x d = Some (Inr d')" and t: "intact a P d \<or> erased P d"
  shows "intact a P d' \<or> erased P d'"
proof -
  from deleteTriggered_parts[OF run] obtain d1 where d1: "reset fuel x d = Some (Inr d1)"
    "d' = (if x \<in> set (pendingActions d1)
           then deleteActionDriver x (d1\<lparr>pendingActions := releaseLast x (pendingActions d1)\<rparr>)
           else d1)"
    by blast
  have t1: "intact a P d1 \<or> erased P d1" "x = a \<longrightarrow> erased P d1" using rec t d1(1) by blast+
  show ?thesis
  proof (cases "x \<in> set (pendingActions d1)")
    case False
    then show ?thesis using t1 d1(2) by simp
  next
    case True
    then have d': "d' = deleteActionDriver x (d1\<lparr>pendingActions := releaseLast x (pendingActions d1)\<rparr>)"
      using d1(2) by simp
    have e: "erased P d1 \<Longrightarrow> erased P d'" unfolding d' by (simp add: erased_def deleteActionDriver_def)
    show ?thesis
    proof (cases "x = a")
      case True
      then show ?thesis using t1 e by blast
    next
      case False
      then have "actionHeap d' a = actionHeap d1 a" unfolding d' by (simp add: deleteActionDriver_def)
      then show ?thesis using t1 e intact_same by blast
    qed
  qed
qed

lemma resetProvision_kept:
  assumes rec: "\<forall>y s s'. intact a P s \<or> erased P s \<longrightarrow> reset fuel y s = Some (Inr s') \<longrightarrow>
                  (intact a P s' \<or> erased P s') \<and> (y = a \<longrightarrow> erased P s')"
    and run: "resetProvision (reset fuel) this p d = Some (Inr d')" and t: "intact a P d \<or> erased P d"
  shows "intact a P d' \<or> erased P d'"
proof -
  let ?T = "\<lambda>s. intact a P s \<or> erased P s"
  from resetProvision_parts[OF run] obtain d1 d2 where
    d1: "forEach (reset fuel) (searchProvision (dependencyTable d) p) d = Some (Inr d1)" and
    d2: "forEach (deleteTriggered (reset fuel)) (equal_range (actionsByTrigger d1) p)
           (d1\<lparr>actionsByTrigger := filter (\<lambda>row. fst row \<noteq> p) (actionsByTrigger d1)\<rparr>)
         = Some (Inr d2)" and
    d': "d' = d2\<lparr>tagTable := filter (\<lambda>row. snd row \<noteq> p) (tagTable d2),
                 dependencyTable := filter (\<lambda>row. snd (snd row) \<noteq> Some p) (dependencyTable d2)\<rparr>"
    by blast
  let ?e = "d1\<lparr>actionsByTrigger := filter (\<lambda>row. fst row \<noteq> p) (actionsByTrigger d1)\<rparr>"
  have "\<forall>x \<in> set (searchProvision (dependencyTable d) p). \<forall>s s'.
          ?T s \<longrightarrow> reset fuel x s = Some (Inr s') \<longrightarrow> ?T s'"
    using rec by blast
  then have "?T d1" using forEach_inv[where I="?T", OF _ t d1] by blast
  then have te: "?T ?e" by (auto simp: intact_def erased_def)
  have "\<forall>x \<in> set (equal_range (actionsByTrigger d1) p). \<forall>s s'.
          ?T s \<longrightarrow> deleteTriggered (reset fuel) x s = Some (Inr s') \<longrightarrow> ?T s'"
    using deleteTriggered_kept[OF rec] by blast
  then have "?T d2" using forEach_inv[where I="?T", OF _ te d2] by blast
  then show ?thesis unfolding d' by (auto simp: intact_def erased_def)
qed

lemma reset_kept:
  "reset fuel x d = Some (Inr d') \<Longrightarrow> intact a P d \<or> erased P d \<Longrightarrow>
     (intact a P d' \<or> erased P d') \<and> (x = a \<longrightarrow> erased P d')"
proof (induction fuel arbitrary: x d d')
  case 0
  then show ?case by simp
next
  case (Suc fuel)
  from reset_live[OF Suc.prems(1)] obtain self where self: "actionHeap d x = Some self" by blast
  show ?case
  proof (cases "erased P d")
    case True
    then have "erased P d'" using loses_erased[OF reset_loses[OF Suc.prems(1)]] by blast
    then show ?thesis by blast
  next
    case ne: False
    then have i: "intact a P d" using Suc.prems(2) by blast
    show ?thesis
    proof (cases "x = a")
      case True
      then show ?thesis using reset_erases[OF Suc.prems(1)[unfolded True] i] by blast
    next
      case xa: False
      show ?thesis
      proof (cases "state self = PENDING")
        case True
        then show ?thesis using Suc.prems self xa by simp
      next
        case False
        let ?T = "\<lambda>s. intact a P s \<or> erased P s"
        from reset_parts[OF Suc.prems(1) self False] obtain d1 d2 where
          d1: "requeue x self d = Inr d1" and
          d2: "forEach (resetProvision (reset fuel) x) (provisions self) d1 = Some (Inr d2)" and
          d3: "forget x d2 = Some (Inr d')" by blast
        have "actionHeap d1 a = actionHeap d a" using requeue_heap(2)[OF d1] xa by simp
        then have t1: "?T d1" using i intact_same by blast
        have rec: "\<forall>y s s'. ?T s \<longrightarrow> reset fuel y s = Some (Inr s') \<longrightarrow>
                     ?T s' \<and> (y = a \<longrightarrow> erased P s')"
          using Suc.IH by blast
        have "\<forall>p \<in> set (provisions self). \<forall>s s'. ?T s \<longrightarrow>
                resetProvision (reset fuel) x p s = Some (Inr s') \<longrightarrow> ?T s'"
          using resetProvision_kept[OF rec] by blast
        then have t2: "?T d2" using forEach_inv[where I="?T", OF _ t1 d2] by blast
        have l3: "loses d2 d'" using forget_cases[OF d3] by (auto simp: loses_def setAction_def)
        have h3: "actionHeap d' a = actionHeap d2 a"
          using forget_cases[OF d3] xa by (auto simp: setAction_def)
        have "?T d'" using t2 loses_erased[OF l3] intact_same[OF h3] by blast
        then show ?thesis using xa by blast
      qed
    qed
  qed
qed

lemma forEach_reset_erases:
  "forEach (reset fuel) xs d = Some (Inr d') \<Longrightarrow> intact a P d \<or> erased P d \<Longrightarrow>
     (intact a P d' \<or> erased P d') \<and> (a \<in> set xs \<longrightarrow> erased P d')"
proof (induction xs arbitrary: d)
  case Nil
  then show ?case by simp
next
  case (Cons x xs)
  from Cons.prems(1) obtain d1 where d1: "reset fuel x d = Some (Inr d1)"
    "forEach (reset fuel) xs d1 = Some (Inr d')"
    by (auto simp: andThen_Inr)
  from reset_kept[OF d1(1) Cons.prems(2)]
  have t1: "intact a P d1 \<or> erased P d1" "x = a \<longrightarrow> erased P d1" by blast+
  from Cons.IH[OF d1(2) t1(1)]
  have ih: "intact a P d' \<or> erased P d'" "a \<in> set xs \<longrightarrow> erased P d'" by blast+
  have "loses d1 d'"
    using forEach_rel[where R=loses, OF loses_refl loses_trans _ d1(2)] reset_loses by blast
  then have "x = a \<longrightarrow> erased P d'" using t1(2) loses_erased by blast
  then show ?case using ih by auto
qed

lemma forEach_reset_cascade:
  assumes run: "forEach (reset fuel) acts d = Some (Inr d')" and a: "a \<in> set acts"
    and i: "intact a P d"
  shows "\<forall>t B. (t, B, Some P) \<in> set (dependencyTable d) \<longrightarrow> idle B d'"
    and "placed d \<longrightarrow> (\<forall>B. (P, B) \<in> set (actionsByTrigger d) \<longrightarrow> gone B d')"
proof -
  have e: "erased P d'" using forEach_reset_erases[OF run] i a by blast
  show "\<forall>t B. (t, B, Some P) \<in> set (dependencyTable d) \<longrightarrow> idle B d'"
  proof (intro allI impI)
    fix t B assume "(t, B, Some P) \<in> set (dependencyTable d)"
    then have "sought P B d" by (auto simp: sought_def)
    moreover have "\<forall>x \<in> set acts. \<forall>s s'. sought P B s \<longrightarrow>
        reset fuel x s = Some (Inr s') \<longrightarrow> sought P B s'"
      using reset_sought by blast
    ultimately have "sought P B d'" using forEach_inv[where I="sought P B", OF _ _ run] by blast
    then show "idle B d'" using e by (force simp: sought_def erased_def)
  qed
  show "placed d \<longrightarrow> (\<forall>B. (P, B) \<in> set (actionsByTrigger d) \<longrightarrow> gone B d')"
  proof (intro allI impI)
    fix B assume pl: "placed d" and "(P, B) \<in> set (actionsByTrigger d)"
    then have j: "placed d \<and> owed P B d" by (simp add: owed_def)
    have "\<forall>x \<in> set acts. \<forall>s s'. placed s \<and> owed P B s \<longrightarrow>
        reset fuel x s = Some (Inr s') \<longrightarrow> placed s' \<and> owed P B s'"
      using reset_owed reset_placed by blast
    then have "placed d' \<and> owed P B d'"
      using forEach_inv[where I="\<lambda>s. placed s \<and> owed P B s", OF _ j run] by blast
    then show "gone B d'" using e by (force simp: owed_def erased_def)
  qed
qed

text \<open>
  C2, as amended. \<open>registerProvider\<close> goes through the tags in turn (\<open>registerTag\<close>): it
  puts the provision under the tag \<open>T\<close>, calls \<open>resetDependentActions(T)\<close> on that table
  and then fires the triggers. The call ends (for enough fuel). When it
  returns, it has called \<open>reset()\<close> on exactly the actions of the dependency rows
  \<open>(T, action, previous)\<close> whose preferred provider of \<open>T\<close>, computed against the tag table as
  it is at the call, differs from \<open>previous\<close>; each of these is PENDING afterwards or has
  been deleted by the cascade (\<open>idle\<close>); if there is none the driver is unchanged. The
  cascade reaches other actions: for every provision that one of the actions reset held
  while it was not PENDING, each action that is recorded as having looked that provision
  up is PENDING afterwards or deleted, and, the queues being consistent, each action that
  the provision triggered is in none of the pending queue, the active set and the
  completed set. An action whose recorded provider is still the preferred one is left as
  it was unless the cascade reaches it: every action outside a set that holds the actions
  reset and is closed under the cascade is untouched. Nothing is said of the runs on
  which the call does not return.
\<close>

theorem resetDependentActions_cascade:
  "(\<forall>d'. registerProvider fuel p tags d = Some (Inr d') \<longrightarrow>
        (\<exists>p0. provisionHeap d p = Some p0
            \<and> forEach (registerTag fuel p) tags
                 (d\<lparr>provisionHeap :=
                      (provisionHeap d)(p \<mapsto>
                         p0\<lparr>contentHash := fileContentHash (disk d) (file' p0)\<rparr>)\<rparr>)
                = Some (Inr d')))
   \<and> (\<forall>d'. registerTag fuel p T d = Some (Inr d') \<longrightarrow>
        (\<exists>d1. resetDependentActions fuel T (d\<lparr>tagTable := tagTable d @ [(T, p)]\<rparr>) = Some (Inr d1)
             \<and> fireTriggers T p d1 = Inr d'))
   \<and> (unsettled d < fuel \<longrightarrow> resetDependentActions fuel T d \<noteq> None)
   \<and> (\<forall>d'. resetDependentActions fuel T d = Some (Inr d') \<longrightarrow>
         (\<exists>acts. actionsToReset d T (dependencyTable d) = Inr acts
            \<and> forEach (reset fuel) acts d = Some (Inr d')
            \<and> set acts = {a. \<exists>previous. (T, a, previous) \<in> set (dependencyTable d)
                           \<and> choosePreferredProvider a T d \<noteq> Inr previous}
            \<and> (\<forall>a \<in> set acts. idle a d')
            \<and> (\<forall>a \<in> set acts. \<forall>P. intact a P d \<longrightarrow>
                  (\<forall>t B. (t, B, Some P) \<in> set (dependencyTable d) \<longrightarrow> idle B d')
                  \<and> (placed d \<longrightarrow> (\<forall>B. (P, B) \<in> set (actionsByTrigger d) \<longrightarrow> gone B d')))
            \<and> (acts = [] \<longrightarrow> d' = d)
            \<and> (\<forall>C Ps. set acts \<subseteq> C \<and> cascadeClosed d C Ps \<longrightarrow> untouched C d d')))"
proof (intro conjI allI impI)
  fix d' assume "registerProvider fuel p tags d = Some (Inr d')"
  then show "\<exists>p0. provisionHeap d p = Some p0
            \<and> forEach (registerTag fuel p) tags
                 (d\<lparr>provisionHeap :=
                      (provisionHeap d)(p \<mapsto>
                         p0\<lparr>contentHash := fileContentHash (disk d) (file' p0)\<rparr>)\<rparr>)
                = Some (Inr d')"
    by (simp add: registerProvider_def split: option.splits)
next
  fix d' assume "registerTag fuel p T d = Some (Inr d')"
  then show "\<exists>d1. resetDependentActions fuel T (d\<lparr>tagTable := tagTable d @ [(T, p)]\<rparr>) = Some (Inr d1)
             \<and> fireTriggers T p d1 = Inr d'"
    by (auto simp: registerTag_def andThen_Inr split: option.splits)
next
  assume "unsettled d < fuel"
  then show "resetDependentActions fuel T d \<noteq> None" by (rule resetDependentActions_terminates)
next
  fix d' assume run: "resetDependentActions fuel T d = Some (Inr d')"
  then obtain acts where acts: "actionsToReset d T (dependencyTable d) = Inr acts"
    and each: "forEach (reset fuel) acts d = Some (Inr d')"
    by (auto simp: resetDependentActions_def split: sum.splits)
  have 1: "set acts = {a. \<exists>previous. (T, a, previous) \<in> set (dependencyTable d)
                           \<and> choosePreferredProvider a T d \<noteq> Inr previous}"
    unfolding actionsToReset_set[OF acts] by force
  have 2: "\<forall>a \<in> set acts. idle a d'"
    using forEach_reset_idle[OF each] by blast
  have 3: "acts = [] \<longrightarrow> d' = d" using each by auto
  have 4: "untouched C d d'" if C: "set acts \<subseteq> C \<and> cascadeClosed d C Ps" for C Ps
  proof -
    have "\<forall>x \<in> set acts. \<forall>s s'. reset fuel x s = Some (Inr s') \<longrightarrow> within C Ps s s'"
      using reset_within C by blast
    from forEach_rel[where R="within C Ps", OF within_refl within_trans this each] C
    show ?thesis by (simp add: within_def)
  qed
  have 5: "\<forall>a \<in> set acts. \<forall>P. intact a P d \<longrightarrow>
             (\<forall>t B. (t, B, Some P) \<in> set (dependencyTable d) \<longrightarrow> idle B d')
             \<and> (placed d \<longrightarrow> (\<forall>B. (P, B) \<in> set (actionsByTrigger d) \<longrightarrow> gone B d'))"
    using forEach_reset_cascade[OF each] by blast
  show "\<exists>acts. actionsToReset d T (dependencyTable d) = Inr acts
            \<and> forEach (reset fuel) acts d = Some (Inr d')
            \<and> set acts = {a. \<exists>previous. (T, a, previous) \<in> set (dependencyTable d)
                           \<and> choosePreferredProvider a T d \<noteq> Inr previous}
            \<and> (\<forall>a \<in> set acts. idle a d')
            \<and> (\<forall>a \<in> set acts. \<forall>P. intact a P d \<longrightarrow>
                  (\<forall>t B. (t, B, Some P) \<in> set (dependencyTable d) \<longrightarrow> idle B d')
                  \<and> (placed d \<longrightarrow> (\<forall>B. (P, B) \<in> set (actionsByTrigger d) \<longrightarrow> gone B d')))
            \<and> (acts = [] \<longrightarrow> d' = d)
            \<and> (\<forall>C Ps. set acts \<subseteq> C \<and> cascadeClosed d C Ps \<longrightarrow> untouched C d d')"
    using acts each 1 2 3 4 5 by blast
qed

lemma superseded_choose:
  "choosePreferredProvider 1 (fromFile ''a.h'') supersededDriver = Inr (Some 12)"
  "choosePreferredProvider 3 (fromFile ''a.h'') supersededDriver = Inr (Some 10)"
  by (simp_all add: supersededDriver_def exampleAction_def choosePreferredProvider_def
      searchTag_def canonicalName_def continues_def newDriver_def)

lemma superseded_acts:
  "actionsToReset supersededDriver (fromFile ''a.h'') (dependencyTable supersededDriver) = Inr [1]"
  using superseded_choose by (simp add: supersededDriver_def)

lemma superseded_run:
  "\<exists>d'. resetDependentActions (Suc (Suc 0)) (fromFile ''a.h'') supersededDriver = Some (Inr d')
      \<and> pendingActions d' = [1, 3] \<and> completedActionPtrs d' = [5]
      \<and> map_option state (actionHeap d' 1) = Some PENDING
      \<and> map_option state (actionHeap d' 3) = Some PENDING
      \<and> actionHeap d' 5 = actionHeap supersededDriver 5"
  unfolding resetDependentActions_def superseded_acts
  by (simp add: supersededDriver_def newDriver_def exampleAction_def requeue_def
      resetProvision_def searchProvision_def equal_range_def deleteTriggered_def releaseLast_def
      deleteActionDriver_def forget_def andThen_def setAction_def freeProvisions_def)

text \<open>
  C2 as stated fails: the recorded provider of action 3 for the tag is still its preferred
  one, and \<open>resetDependentActions\<close> resets it all the same, through the cascade of the reset
  of action 1, whose output it looked up.
\<close>

theorem resetDependentActions_counterexample:
  "(fromFile ''a.h'', 3, Some 10) \<in> set (dependencyTable supersededDriver)
   \<and> choosePreferredProvider 3 (fromFile ''a.h'') supersededDriver = Inr (Some 10)
   \<and> map_option state (actionHeap supersededDriver 3) = Some DONE
   \<and> pendingActions supersededDriver = [] \<and> completedActionPtrs supersededDriver = [1, 3, 5]
   \<and> map_option (map_sum id pendingActions)
         (resetDependentActions (Suc (Suc 0)) (fromFile ''a.h'') supersededDriver)
       = Some (Inr [1, 3])
   \<and> map_option (map_sum id completedActionPtrs)
         (resetDependentActions (Suc (Suc 0)) (fromFile ''a.h'') supersededDriver)
       = Some (Inr [5])"
proof -
  from superseded_run obtain d' where
    d': "resetDependentActions (Suc (Suc 0)) (fromFile ''a.h'') supersededDriver = Some (Inr d')"
      "pendingActions d' = [1, 3]" "completedActionPtrs d' = [5]"
    by blast
  have "(fromFile ''a.h'', 3, Some 10) \<in> set (dependencyTable supersededDriver)"
      "map_option state (actionHeap supersededDriver 3) = Some DONE"
      "pendingActions supersededDriver = []" "completedActionPtrs supersededDriver = [1, 3, 5]"
    by (simp_all add: supersededDriver_def exampleAction_def newDriver_def)
  then show ?thesis using d' superseded_choose(2) by simp
qed

lemma stale_choose:
  "choosePreferredProvider 1 (fromFile ''a.h'')
     (staleDriver\<lparr>tagTable := tagTable staleDriver @ [(fromFile ''a.h'', 12)]\<rparr>) = Inr (Some 12)"
  "choosePreferredProvider 3 (fromFile ''a.h'')
     (staleDriver\<lparr>tagTable := tagTable staleDriver @ [(fromFile ''a.h'', 12)]\<rparr>) = Inr (Some 10)"
  by (simp_all add: staleDriver_def supersededDriver_def exampleAction_def
      choosePreferredProvider_def searchTag_def canonicalName_def continues_def newDriver_def)

lemma stale_acts:
  "actionsToReset (staleDriver\<lparr>tagTable := tagTable staleDriver @ [(fromFile ''a.h'', 12)]\<rparr>)
     (fromFile ''a.h'') (dependencyTable staleDriver) = Inr [1]"
  using stale_choose by (simp add: staleDriver_def supersededDriver_def)

lemma stale_run:
  "\<exists>d'. registerTag (Suc (Suc 0)) 12 (fromFile ''a.h'') staleDriver = Some (Inr d')
      \<and> resetDependentActions (Suc (Suc 0)) (fromFile ''a.h'')
           (staleDriver\<lparr>tagTable := tagTable staleDriver @ [(fromFile ''a.h'', 12)]\<rparr>)
          = Some (Inr d')
      \<and> pendingActions d' = [1, 3] \<and> completedActionPtrs d' = [5]"
  unfolding registerTag_def resetDependentActions_def
  using stale_acts
  by (simp add: staleDriver_def supersededDriver_def newDriver_def exampleAction_def requeue_def
      resetProvision_def searchProvision_def equal_range_def deleteTriggered_def releaseLast_def
      deleteActionDriver_def forget_def andThen_def setAction_def freeProvisions_def
      fireTriggers_def)

lemma stale_register:
  "registerProvider fuel 12 [fromFile ''a.h''] staleDriver
     = registerTag fuel 12 (fromFile ''a.h'') staleDriver"
proof -
  have h: "provisionHeap staleDriver 12
             = Some \<lparr>file' = ''src/bar/a.h'', contentHash = NullHash\<rparr>"
    by (simp add: staleDriver_def supersededDriver_def)
  have same: "staleDriver\<lparr>provisionHeap := (provisionHeap staleDriver)(12 \<mapsto>
      \<lparr>file' = ''src/bar/a.h'', contentHash = NullHash\<rparr>
        \<lparr>contentHash := fileContentHash (disk staleDriver) ''src/bar/a.h''\<rparr>)\<rparr> = staleDriver"
    by (simp add: staleDriver_def supersededDriver_def newDriver_def fileContentHash_def
        fun_eq_iff)
  show ?thesis
    unfolding registerProvider_def h using same
    by (simp add: andThen_def split: option.splits sum.splits)
qed

theorem resetDependentActions_cascade_witness:
  "\<exists>d'. registerProvider (Suc (Suc 0)) 12 [fromFile ''a.h''] staleDriver = Some (Inr d')
      \<and> fireTriggers (fromFile ''a.h'') 12 d' = Inr d'
      \<and> choosePreferredProvider 3 (fromFile ''a.h'')
           (staleDriver\<lparr>tagTable := tagTable staleDriver @ [(fromFile ''a.h'', 12)]\<rparr>)
          = Inr (Some 10)
      \<and> pendingActions d' = [1, 3] \<and> idle 1 d' \<and> idle 3 d' \<and> gone 7 d'
      \<and> actionHeap d' 5 = actionHeap staleDriver 5
      \<and> 5 \<in> set (completedActionPtrs d')"
proof -
  let ?d0 = "staleDriver\<lparr>tagTable := tagTable staleDriver @ [(fromFile ''a.h'', 12)]\<rparr>"
  from stale_run obtain d' where
    d': "registerTag (Suc (Suc 0)) 12 (fromFile ''a.h'') staleDriver = Some (Inr d')"
      "resetDependentActions (Suc (Suc 0)) (fromFile ''a.h'') ?d0 = Some (Inr d')"
      "pendingActions d' = [1, 3]" "completedActionPtrs d' = [5]"
    by blast
  have rp: "registerProvider (Suc (Suc 0)) 12 [fromFile ''a.h''] staleDriver = Some (Inr d')"
    using d'(1) by (simp add: stale_register)
  from resetDependentActions_cascade[where d=staleDriver and fuel="Suc (Suc 0)" and p=12
      and tags="[fromFile ''a.h'']", THEN conjunct1, rule_format, OF rp]
  have "provisionHeap staleDriver 12 \<noteq> None" by (elim exE conjE) simp
  from resetDependentActions_cascade[where d=staleDriver and fuel="Suc (Suc 0)" and p=12
      and T="fromFile ''a.h''", THEN conjunct2, THEN conjunct1, rule_format, OF d'(1)]
  obtain d1 where d1: "resetDependentActions (Suc (Suc 0)) (fromFile ''a.h'') ?d0 = Some (Inr d1)"
      "fireTriggers (fromFile ''a.h'') 12 d1 = Inr d'"
    by (elim exE conjE) (rule that, assumption+)
  have fired: "fireTriggers (fromFile ''a.h'') 12 d' = Inr d'"
    using d1 d'(2) by simp
  have closed: "cascadeClosed ?d0 {1, 3, 7} {11}"
    by (simp add: cascadeClosed_def staleDriver_def supersededDriver_def exampleAction_def
        newDriver_def)
  have i: "intact 1 11 ?d0"
    by (simp add: intact_def staleDriver_def supersededDriver_def exampleAction_def)
  have pl: "placed ?d0"
    by (simp add: placed_def staleDriver_def supersededDriver_def exampleAction_def newDriver_def)
  have rows: "(fromFile ''x.o'', 3, Some 11) \<in> set (dependencyTable ?d0)"
      "(11, 7) \<in> set (actionsByTrigger ?d0)"
    by (simp_all add: staleDriver_def supersededDriver_def)
  have dt: "dependencyTable ?d0 = dependencyTable staleDriver" by simp
  from resetDependentActions_cascade[where d="?d0" and fuel="Suc (Suc 0)"
      and T="fromFile ''a.h''", THEN conjunct2, THEN conjunct2, THEN conjunct2, rule_format,
      OF d'(2)]
  obtain acts where acts: "actionsToReset ?d0 (fromFile ''a.h'') (dependencyTable ?d0) = Inr acts"
    and idle: "\<forall>a \<in> set acts. idle a d'"
    and casc: "\<forall>a \<in> set acts. \<forall>P. intact a P ?d0 \<longrightarrow>
            (\<forall>t B. (t, B, Some P) \<in> set (dependencyTable ?d0) \<longrightarrow> idle B d')
            \<and> (placed ?d0 \<longrightarrow> (\<forall>B. (P, B) \<in> set (actionsByTrigger ?d0) \<longrightarrow> gone B d'))"
    and frame: "\<forall>C Ps. set acts \<subseteq> C \<and> cascadeClosed ?d0 C Ps \<longrightarrow> untouched C ?d0 d'"
    by (elim exE conjE) (rule that, assumption+)
  have a1: "acts = [1]" using acts stale_acts unfolding dt by simp
  have 1: "idle 1 d'" using idle a1 by simp
  have c: "(\<forall>t B. (t, B, Some 11) \<in> set (dependencyTable ?d0) \<longrightarrow> idle B d')
            \<and> (placed ?d0 \<longrightarrow> (\<forall>B. (11, B) \<in> set (actionsByTrigger ?d0) \<longrightarrow> gone B d'))"
    using casc a1 i by simp
  have 3: "idle 3 d'" using c rows(1) by blast
  have 7: "gone 7 d'" using c pl rows(2) by blast
  have "set acts \<subseteq> {1, 3, 7}" using a1 by simp
  then have "untouched {1, 3, 7} ?d0 d'" using frame closed by blast
  then have 5: "actionHeap d' 5 = actionHeap staleDriver 5" by (simp add: untouched_def)
  show ?thesis using rp fired d' stale_choose(2) 1 3 7 5 by (intro exI[of _ d']) simp
qed

end
